theory Spec2Isabelle
  imports Complex_Main "HOL-Library.Log_Nat"
begin

section \<open>Cross-document discrepancy check (scripts/doc-discrepancy-check.js)\<close>

text \<open>
  A JavaScript string is modelled as a \<^typ>\<open>string\<close>, one \<^typ>\<open>char\<close> per code unit in the
  Latin-1 range. The regular expressions of the script are values of the datatype \<open>re\<close>
  below, run by a backtracking matcher that follows the ECMAScript rules the script relies
  on: ordered alternation, greedy quantifiers, capture groups, \<open>\b\<close>, \<open>^\<close>, \<open>$\<close>, and the
  \<open>i\<close> flag.
\<close>

subsection \<open>Character classes\<close>

definition code :: "char \<Rightarrow> nat" where
  "code c = of_char c"

definition is_digit :: "char \<Rightarrow> bool" where
  "is_digit c = (48 \<le> code c \<and> code c \<le> 57)"

definition is_upper :: "char \<Rightarrow> bool" where
  "is_upper c = (65 \<le> code c \<and> code c \<le> 90)"

definition is_lower :: "char \<Rightarrow> bool" where
  "is_lower c = (97 \<le> code c \<and> code c \<le> 122)"

text \<open>\<open>\w\<close> is \<open>[A-Za-z0-9_]\<close>.\<close>

definition is_word :: "char \<Rightarrow> bool" where
  "is_word c = (is_digit c \<or> is_upper c \<or> is_lower c \<or> code c = 95)"

text \<open>\<open>\s\<close>: tab, line feed, vertical tab, form feed, carriage return, space, and the
  no-break space of Latin-1.\<close>

definition is_space :: "char \<Rightarrow> bool" where
  "is_space c = ((9 \<le> code c \<and> code c \<le> 13) \<or> code c = 32 \<or> code c = 160)"

text \<open>\<open>toLowerCase\<close> and \<open>toUpperCase\<close> on the letters \<open>A-Z\<close> and \<open>a-z\<close>. Every other
  character is left as it is: both functions map a character outside ASCII to a character
  outside ASCII within Latin-1, and the script then either deletes such a character or
  compares it with an ASCII letter.\<close>

definition lower_char :: "char \<Rightarrow> char" where
  "lower_char c = (if is_upper c then char_of (code c + 32) else c)"

definition upper_char :: "char \<Rightarrow> char" where
  "upper_char c = (if is_lower c then char_of (code c - 32) else c)"

definition toLowerCase :: "string \<Rightarrow> string" where
  "toLowerCase s = map lower_char s"

subsection \<open>Regular expressions\<close>

datatype re =
    Chr char
  | Cls "char \<Rightarrow> bool"
  | Eps
  | Seq re re
  | Alt re re
  | Star re
  | Rep nat nat re
  | Grp nat re
  | Bol
  | Eol
  | Wb

text \<open>A matcher state: the text before the position (reversed), the text from the position
  on, and the capture groups set so far (the latest first).\<close>

type_synonym mstate = "string \<times> string \<times> (nat \<times> string) list"

definition remaining :: "mstate \<Rightarrow> nat" where
  "remaining st = length (fst (snd st))"

text \<open>The greedy \<open>*\<close>: one more iteration first, then the rest of the pattern from here. An
  iteration that consumes nothing is rejected, as ECMAScript does. The fuel is the length
  of the remaining text, which every iteration shortens.\<close>

fun star_m :: "(mstate \<Rightarrow> mstate list) \<Rightarrow> nat \<Rightarrow> mstate \<Rightarrow> mstate list" where
  "star_m f 0 st = [st]"
| "star_m f (Suc n) st =
     concat (map (star_m f n) (filter (\<lambda>st'. remaining st' < remaining st) (f st))) @ [st]"

text \<open>The greedy \<open>{lo,hi}\<close>.\<close>

fun rep_m :: "(mstate \<Rightarrow> mstate list) \<Rightarrow> nat \<Rightarrow> nat \<Rightarrow> mstate \<Rightarrow> mstate list" where
  "rep_m f lo 0 st = (if lo = 0 then [st] else [])"
| "rep_m f lo (Suc hi) st =
     concat (map (rep_m f (lo - 1) hi) (f st)) @ (if lo = 0 then [st] else [])"

definition word_boundary :: "string \<Rightarrow> string \<Rightarrow> bool" where
  "word_boundary pre rest =
     ((case pre of [] \<Rightarrow> False | p # _ \<Rightarrow> is_word p) \<noteq>
      (case rest of [] \<Rightarrow> False | x # _ \<Rightarrow> is_word x))"

text \<open>\<open>matches ic r st\<close> lists the states in which \<open>r\<close> can end when started in \<open>st\<close>, in the
  order in which backtracking tries them; \<open>ic\<close> is the \<open>i\<close> flag.\<close>

fun matches :: "bool \<Rightarrow> re \<Rightarrow> mstate \<Rightarrow> mstate list" where
  "matches ic (Chr c) (pre, rest, caps) =
     (case rest of
        [] \<Rightarrow> []
      | x # xs \<Rightarrow>
          if (if ic then upper_char x = upper_char c else x = c)
          then [(x # pre, xs, caps)] else [])"
| "matches ic (Cls P) (pre, rest, caps) =
     (case rest of [] \<Rightarrow> [] | x # xs \<Rightarrow> if P x then [(x # pre, xs, caps)] else [])"
| "matches ic Eps st = [st]"
| "matches ic (Seq r1 r2) st = concat (map (matches ic r2) (matches ic r1 st))"
| "matches ic (Alt r1 r2) st = matches ic r1 st @ matches ic r2 st"
| "matches ic (Star r) st = star_m (matches ic r) (remaining st) st"
| "matches ic (Rep lo hi r) st = rep_m (matches ic r) lo hi st"
| "matches ic (Grp n r) (pre, rest, caps) =
     map (\<lambda>(pre', rest', caps').
            (pre', rest', (n, rev (take (length pre' - length pre) pre')) # caps'))
         (matches ic r (pre, rest, caps))"
| "matches ic Bol (pre, rest, caps) = (if pre = [] then [(pre, rest, caps)] else [])"
| "matches ic Eol (pre, rest, caps) = (if rest = [] then [(pre, rest, caps)] else [])"
| "matches ic Wb (pre, rest, caps) =
     (if word_boundary pre rest then [(pre, rest, caps)] else [])"

abbreviation Plus :: "re \<Rightarrow> re" where
  "Plus r \<equiv> Seq r (Star r)"

abbreviation Opt :: "re \<Rightarrow> re" where
  "Opt r \<equiv> Rep 0 1 r"

fun Str :: "string \<Rightarrow> re" where
  "Str [] = Eps"
| "Str [c] = Chr c"
| "Str (c # cs) = Seq (Chr c) (Str cs)"

fun Alts :: "re list \<Rightarrow> re" where
  "Alts [] = Eps"
| "Alts [r] = r"
| "Alts (r # rs) = Alt r (Alts rs)"

text \<open>One match: where it starts (the reversed text before it), the matched text, the
  state after it.\<close>

record rmatch =
  m_pre :: string
  m_text :: string
  m_caps :: "(nat \<times> string) list"
  m_rest :: string

definition mk_match :: "string \<Rightarrow> mstate \<Rightarrow> rmatch" where
  "mk_match pre st =
     (case st of (pre', rest', caps) \<Rightarrow>
        \<lparr>m_pre = pre, m_text = rev (take (length pre' - length pre) pre'),
         m_caps = caps, m_rest = rest'\<rparr>)"

text \<open>\<open>RegExp.prototype.exec\<close> without the \<open>g\<close> flag, \<open>String.prototype.match\<close> and
  \<open>test\<close>: the leftmost position at which the pattern matches, and there the first
  alternative backtracking finds.\<close>

fun exec_from :: "bool \<Rightarrow> re \<Rightarrow> string \<Rightarrow> string \<Rightarrow> rmatch option" where
  "exec_from ic r pre rest =
     (case matches ic r (pre, rest, []) of
        st # _ \<Rightarrow> Some (mk_match pre st)
      | [] \<Rightarrow> (case rest of [] \<Rightarrow> None | c # cs \<Rightarrow> exec_from ic r (c # pre) cs))"

definition match_re :: "bool \<Rightarrow> re \<Rightarrow> string \<Rightarrow> rmatch option" where
  "match_re ic r s = exec_from ic r [] s"

definition test :: "bool \<Rightarrow> re \<Rightarrow> string \<Rightarrow> bool" where
  "test ic r s = (match_re ic r s \<noteq> None)"

definition group :: "rmatch \<Rightarrow> nat \<Rightarrow> string option" where
  "group m n = map_of (m_caps m) n"

definition the_default :: "'a \<Rightarrow> 'a option \<Rightarrow> 'a" where
  "the_default d x = (case x of None \<Rightarrow> d | Some v \<Rightarrow> v)"

text \<open>The loop \<open>while ((match = re.exec(text)) !== null)\<close> of a pattern with the \<open>g\<close>
  flag, and the matches \<open>replace\<close> and \<open>split\<close> act on: each search starts where the
  last match ended. After an empty match the search moves one character on.\<close>

fun exec_all :: "bool \<Rightarrow> re \<Rightarrow> string \<Rightarrow> string \<Rightarrow> rmatch list" where
  "exec_all ic r pre rest =
     (case matches ic r (pre, rest, []) of
        st # _ \<Rightarrow>
          (if length (fst (snd st)) < length rest
           then mk_match pre st # exec_all ic r (fst st) (fst (snd st))
           else mk_match pre st #
                (case rest of [] \<Rightarrow> [] | c # cs \<Rightarrow> exec_all ic r (c # pre) cs))
      | [] \<Rightarrow> (case rest of [] \<Rightarrow> [] | c # cs \<Rightarrow> exec_all ic r (c # pre) cs))"

text \<open>\<open>s.replace(re, rep)\<close> with the \<open>g\<close> flag and a replacement without patterns.\<close>

fun replace_all :: "bool \<Rightarrow> re \<Rightarrow> string \<Rightarrow> string \<Rightarrow> string \<Rightarrow> string" where
  "replace_all ic r rep pre rest =
     (case matches ic r (pre, rest, []) of
        st # _ \<Rightarrow>
          (if length (fst (snd st)) < length rest
           then rep @ replace_all ic r rep (fst st) (fst (snd st))
           else rep @
                (case rest of [] \<Rightarrow> [] | c # cs \<Rightarrow> c # replace_all ic r rep (c # pre) cs))
      | [] \<Rightarrow> (case rest of [] \<Rightarrow> [] | c # cs \<Rightarrow> c # replace_all ic r rep (c # pre) cs))"

definition replace :: "bool \<Rightarrow> re \<Rightarrow> string \<Rightarrow> string \<Rightarrow> string" where
  "replace ic r rep s = replace_all ic r rep [] s"

text \<open>\<open>s.split(re)\<close> for a pattern without groups: the pieces between the non-empty
  matches; a string without a match is the only piece.\<close>

fun split_from :: "re \<Rightarrow> string \<Rightarrow> string \<Rightarrow> string \<Rightarrow> string list" where
  "split_from r piece pre rest =
     (case rest of
        [] \<Rightarrow> [rev piece]
      | c # cs \<Rightarrow>
          (case matches False r (pre, rest, []) of
             st # _ \<Rightarrow>
               (if length (fst (snd st)) < length rest
                then rev piece # split_from r [] (fst st) (fst (snd st))
                else split_from r (c # piece) (c # pre) cs)
           | [] \<Rightarrow> split_from r (c # piece) (c # pre) cs))"

definition split :: "re \<Rightarrow> string \<Rightarrow> string list" where
  "split r s = split_from r [] [] s"

text \<open>\<open>s.trim()\<close>.\<close>

definition trim :: "string \<Rightarrow> string" where
  "trim s = rev (dropWhile is_space (rev (dropWhile is_space s)))"

text \<open>\<open>s.slice(-n)\<close>: the last \<open>n\<close> characters.\<close>

definition slice_last :: "nat \<Rightarrow> string \<Rightarrow> string" where
  "slice_last n s = drop (length s - n) s"

text \<open>\<open>[...new Set(xs)]\<close>: the distinct elements in the order of their first occurrence.\<close>

fun uniq :: "'a list \<Rightarrow> 'a list" where
  "uniq [] = []"
| "uniq (x # xs) = x # uniq (filter (\<lambda>y. y \<noteq> x) xs)"

subsection \<open>keySimilarity\<close>

definition ws_plus :: re where
  "ws_plus = Plus (Cls is_space)"

definition key_words :: "string \<Rightarrow> string list" where
  "key_words a = uniq (filter (\<lambda>w. length w > 1 \<and> w \<noteq> ''#'') (split ws_plus a))"

text \<open>The two numbers \<open>inter\<close> and \<open>union\<close> the function divides.\<close>

definition key_inter :: "string \<Rightarrow> string \<Rightarrow> nat" where
  "key_inter a b = length (filter (\<lambda>w. w \<in> set (key_words b)) (key_words a))"

definition key_union :: "string \<Rightarrow> string \<Rightarrow> nat" where
  "key_union a b = length (uniq (key_words a @ key_words b))"

text \<open>The quotient of two integers is returned as the rational it is; the double the
  script computes is that rational rounded, which compares with \<open>0\<close>, \<open>0.5\<close> and \<open>1\<close> as the
  rational does.\<close>

definition keySimilarity :: "string \<Rightarrow> string \<Rightarrow> rat" where
  "keySimilarity a b =
     (if key_union a b = 0 then 0 else of_nat (key_inter a b) / of_nat (key_union a b))"

subsection \<open>groupSimilarKeys\<close>

text \<open>The inner loop \<open>for (const o of keys)\<close>: \<open>used\<close> and \<open>group\<close> grow as it runs.\<close>

fun absorb :: "string list \<Rightarrow> string list \<Rightarrow> string list \<Rightarrow> string list \<times> string list" where
  "absorb [] used grp = (used, grp)"
| "absorb (k # ks) used grp =
     (if k \<in> set used then absorb ks used grp
      else if list_ex (\<lambda>g. keySimilarity g k \<ge> 1 / 2) grp
           then absorb ks (used @ [k]) (grp @ [k])
           else absorb ks used grp)"

text \<open>The outer loop \<open>for (const k of keys)\<close>.\<close>

fun group_loop ::
  "string list \<Rightarrow> string list \<Rightarrow> string list \<Rightarrow> string list list \<Rightarrow> string list list" where
  "group_loop keys [] used groups = groups"
| "group_loop keys (k # ks) used groups =
     (if k \<in> set used then group_loop keys ks used groups
      else case absorb keys (used @ [k]) [k] of
             (used', grp) \<Rightarrow> group_loop keys ks used' (groups @ [grp]))"

text \<open>A \<open>Map\<close> is an association list in insertion order; its keys are distinct.\<close>

definition groupSimilarKeys :: "(string \<times> 'v) list \<Rightarrow> string list list" where
  "groupSimilarKeys factsByKey =
     (let keys = map fst factsByKey in group_loop keys keys [] [])"

subsection \<open>Numbers\<close>

text \<open>A JavaScript number is an IEEE-754 double. The script produces only \<open>NaN\<close>,
  \<open>+Infinity\<close> and doubles that are not negative, each of them a rational. Equality of
  \<open>jsnum\<close> is the \<open>SameValueZero\<close> of \<open>Set\<close> and \<open>Map\<close> (\<open>NaN\<close> equals \<open>NaN\<close>).\<close>

datatype jsnum = NaN | PInf | Num rat

text \<open>The \<open>e\<close> with \<open>2 ^ e \<le> x < 2 ^ (e + 1)\<close>, for \<open>x > 0\<close>.\<close>

definition floor_log2 :: "rat \<Rightarrow> int" where
  "floor_log2 x =
     (case quotient_of x of (p, q) \<Rightarrow>
        let e = bitlen p - bitlen q in if 2 powi e \<le> x then e else e - 1)"

definition round_half_even :: "rat \<Rightarrow> int" where
  "round_half_even r =
     (let f = \<lfloor>r\<rfloor>; d = r - of_int f
      in if d < 1 / 2 then f else if 1 / 2 < d then f + 1 else if even f then f else f + 1)"

text \<open>Rounding a rational that is not negative to the nearest double, ties to even:
  53 bits of mantissa, the exponent not below that of the subnormal numbers, and
  \<open>+Infinity\<close> from \<open>2 ^ 1024\<close> on.\<close>

definition round_double :: "rat \<Rightarrow> jsnum" where
  "round_double x =
     (if x \<le> 0 then Num 0
      else let e = max (floor_log2 x) (- 1022);
               u = 2 powi (e - 52);
               y = of_int (round_half_even (x / u)) * u
           in if 2 ^ 1024 \<le> y then PInf else Num y)"

text \<open>\<open>a * b\<close> and \<open>a < b\<close> on these numbers.\<close>

fun times_js :: "jsnum \<Rightarrow> jsnum \<Rightarrow> jsnum" where
  "times_js (Num a) (Num b) = round_double (a * b)"
| "times_js NaN _ = NaN"
| "times_js _ NaN = NaN"
| "times_js PInf (Num b) = (if b = 0 then NaN else PInf)"
| "times_js (Num a) PInf = (if a = 0 then NaN else PInf)"
| "times_js PInf PInf = PInf"

fun less_js :: "jsnum \<Rightarrow> jsnum \<Rightarrow> bool" where
  "less_js (Num a) (Num b) = (a < b)"
| "less_js (Num a) PInf = True"
| "less_js _ _ = False"

definition digit_val :: "char \<Rightarrow> nat" where
  "digit_val c = code c - 48"

definition digits_val :: "string \<Rightarrow> nat" where
  "digits_val ds = foldl (\<lambda>n c. 10 * n + digit_val c) 0 ds"

text \<open>\<open>parseFloat\<close> on a string that starts with neither blanks nor a sign and has no
  exponent after its digits, which is all the script passes: the longest prefix of the
  form \<open>digits\<close>, \<open>digits.\<close>, \<open>digits.digits\<close> or \<open>.digits\<close> is read as a decimal and
  rounded; without such a prefix the result is \<open>NaN\<close>.\<close>

definition parseFloat :: "string \<Rightarrow> jsnum" where
  "parseFloat s =
     (let ip = takeWhile is_digit s;
          r = dropWhile is_digit s;
          fp = (case r of [] \<Rightarrow> [] | c # r' \<Rightarrow> if c = CHR ''.'' then takeWhile is_digit r' else [])
      in if ip = [] \<and> fp = [] then NaN
         else round_double (of_nat (digits_val ip) + of_nat (digits_val fp) / 10 ^ length fp))"

text \<open>\<open>parseInt(s, 10)\<close> on a string that starts with a digit.\<close>

definition parseInt :: "string \<Rightarrow> jsnum" where
  "parseInt s =
     (let ds = takeWhile is_digit s
      in if ds = [] then NaN else round_double (of_nat (digits_val ds)))"

subsection \<open>normalizeNum and parseDollar\<close>

fun Seqs :: "re list \<Rightarrow> re" where
  "Seqs [] = Eps"
| "Seqs [r] = r"
| "Seqs (r # rs) = Seq r (Seqs rs)"

abbreviation digit :: re where
  "digit \<equiv> Cls is_digit"

abbreviation space :: re where
  "space \<equiv> Cls is_space"

definition comma_re :: re where
  "comma_re = Chr CHR '',''"

text \<open>\<open>/^\d+$/\<close>\<close>

definition int_re :: re where
  "int_re = Seqs [Bol, Plus digit, Eol]"

text \<open>\<open>/^\d*\.?\d+\s*(million|M|m)$/\<close>\<close>

definition million_re :: re where
  "million_re =
     Seqs [Bol, Star digit, Opt (Chr CHR ''.''), Plus digit, Star space,
           Grp 1 (Alts [Str ''million'', Chr CHR ''M'', Chr CHR ''m'']), Eol]"

text \<open>\<open>/^\d*\.?\d+\s*(thousand|k|K)$/\<close>\<close>

definition thousand_re :: re where
  "thousand_re =
     Seqs [Bol, Star digit, Opt (Chr CHR ''.''), Plus digit, Star space,
           Grp 1 (Alts [Str ''thousand'', Chr CHR ''k'', Chr CHR ''K'']), Eol]"

text \<open>\<open>/^[\d,]+(?:\.\d+)?$/\<close>\<close>

definition plain_re :: re where
  "plain_re =
     Seqs [Bol, Plus (Cls (\<lambda>c. is_digit c \<or> c = CHR '','')),
           Opt (Seq (Chr CHR ''.'') (Plus digit)), Eol]"

text \<open>\<open>null\<close> is \<open>None\<close>.\<close>

definition normalizeNum :: "string \<Rightarrow> jsnum option" where
  "normalizeNum s =
     (let n = trim (replace False comma_re [] s)
      in if test False int_re n then Some (parseInt n)
         else if test False million_re n then Some (times_js (parseFloat n) (Num 1000000))
         else if test False thousand_re n then Some (times_js (parseFloat n) (Num 1000))
         else case match_re False plain_re n of
                Some m \<Rightarrow> Some (parseFloat (replace False comma_re [] (m_text m)))
              | None \<Rightarrow> None)"

text \<open>\<open>million|M|m|thousand|k|K\<close>\<close>

definition magnitude :: re where
  "magnitude =
     Alts [Str ''million'', Chr CHR ''M'', Chr CHR ''m'', Str ''thousand'', Chr CHR ''k'',
           Chr CHR ''K'']"

text \<open>\<open>[\d,.]\<close>\<close>

definition amount_char :: "char \<Rightarrow> bool" where
  "amount_char c = (is_digit c \<or> c = CHR '','' \<or> c = CHR ''.'')"

text \<open>\<open>/\$([\d,.]+)\s*(million|M|m|thousand|k|K)?/i\<close>\<close>

definition dollar_parse_re :: re where
  "dollar_parse_re =
     Seqs [Chr CHR ''$'', Grp 1 (Plus (Cls amount_char)), Star space, Opt (Grp 2 magnitude)]"

definition parseDollar :: "string \<Rightarrow> jsnum option" where
  "parseDollar s =
     (case match_re True dollar_parse_re s of
        None \<Rightarrow> None
      | Some m \<Rightarrow>
          (let v = parseFloat (replace False comma_re [] (the_default [] (group m 1)))
           in case group m 2 of
                None \<Rightarrow> Some v
              | Some g \<Rightarrow>
                  if g = [] then Some v
                  else let u = toLowerCase g
                       in if u = ''million'' \<or> u = ''m'' then Some (times_js v (Num 1000000))
                          else if u = ''thousand'' \<or> u = ''k'' then Some (times_js v (Num 1000))
                          else Some v))"

subsection \<open>makeContextKey\<close>

text \<open>\<open>/\$[\d,.]+(?:\s*(?:million|M|m|thousand|k|K))?/gi\<close>\<close>

definition mask_dollar_re :: re where
  "mask_dollar_re =
     Seqs [Chr CHR ''$'', Plus (Cls amount_char), Opt (Seq (Star space) magnitude)]"

text \<open>\<open>/\b\d[\d,.]*(?:\s*(?:million|M|m|thousand|k|K))?\b/g\<close>\<close>

definition mask_num_re :: re where
  "mask_num_re =
     Seqs [Wb, digit, Star (Cls amount_char), Opt (Seq (Star space) magnitude), Wb]"

text \<open>\<open>[a-z0-9#\s]\<close> and \<open>/[^a-z0-9#\s]/g\<close>\<close>

definition key_char :: "char \<Rightarrow> bool" where
  "key_char c = (is_lower c \<or> is_digit c \<or> c = CHR ''#'' \<or> is_space c)"

definition strip_re :: re where
  "strip_re = Cls (\<lambda>c. \<not> key_char c)"

definition makeContextKey :: "string \<Rightarrow> nat \<Rightarrow> string" where
  "makeContextKey text pos =
     (let start = pos - 55;
          end = min (length text) (pos + 25);
          window = trim (replace False ws_plus '' '' (take (end - start) (drop start text)));
          window = replace True mask_dollar_re ''$#'' window;
          window = replace False mask_num_re ''#'' window;
          window = trim (replace False ws_plus '' ''
                     (replace False strip_re '' '' (toLowerCase window)))
      in slice_last 70 window)"

subsection \<open>extractFacts\<close>

datatype fact_type = Dollar | Count

record fact =
  f_type :: fact_type
  f_key :: string
  f_value :: jsnum
  f_unit :: "string option"
  f_raw :: string
  f_file :: string

text \<open>\<open>/\$[\d,]+(?:\.\d+)?(?:\s*(?:million|M|m|thousand|k|K))?/g\<close>\<close>

definition dollarRe :: re where
  "dollarRe =
     Seqs [Chr CHR ''$'', Plus (Cls (\<lambda>c. is_digit c \<or> c = CHR '','')),
           Opt (Seq (Chr CHR ''.'') (Plus digit)), Opt (Seq (Star space) magnitude)]"

text \<open>\<open>/replace|regex|exec|match|substr|char/\<close>\<close>

definition code_like_re :: re where
  "code_like_re =
     Alts [Str ''replace'', Str ''regex'', Str ''exec'', Str ''match'', Str ''substr'',
           Str ''char'']"

text \<open>\<open>vehicles?|sites?|units?|acres?|metres?|dogs?|grill\s+sites?|fleet|years?|months?|
  treehouses?|sections?|nodes?\<close>\<close>

definition plural :: "string \<Rightarrow> re" where
  "plural w = Seq (Str w) (Opt (Chr CHR ''s''))"

definition unit_re :: re where
  "unit_re =
     Alts [plural ''vehicle'', plural ''site'', plural ''unit'', plural ''acre'',
           plural ''metre'', plural ''dog'',
           Seqs [Str ''grill'', Plus space, plural ''site''],
           Str ''fleet'', plural ''year'', plural ''month'', plural ''treehouse'',
           plural ''section'', plural ''node'']"

text \<open>\<open>/\b(\d{1,4})\s*(...)\b/gi\<close>\<close>

definition countRe :: re where
  "countRe = Seqs [Wb, Grp 1 (Rep 1 4 digit), Star space, Grp 2 unit_re, Wb]"

text \<open>The body of the first loop, for one match: the fact pushed, or \<open>None\<close> at a
  \<open>continue\<close>.\<close>

definition dollar_fact :: "string \<Rightarrow> string \<Rightarrow> rmatch \<Rightarrow> fact option" where
  "dollar_fact text filePath m =
     (case parseDollar (m_text m) of
        None \<Rightarrow> None
      | Some v \<Rightarrow>
          let key = makeContextKey text (length (m_pre m))
          in if length key < 12 then None
             else if less_js v (Num 10) \<and> test False code_like_re key then None
             else Some \<lparr>f_type = Dollar, f_key = key, f_value = v, f_unit = None,
                        f_raw = m_text m, f_file = filePath\<rparr>)"

text \<open>The body of the second loop.\<close>

definition count_fact :: "string \<Rightarrow> string \<Rightarrow> rmatch \<Rightarrow> fact option" where
  "count_fact text filePath m =
     (let num = parseInt (the_default [] (group m 1));
          unit = replace False ws_plus '' '' (toLowerCase (the_default [] (group m 2)));
          key = makeContextKey text (length (m_pre m))
      in if length key < 5 then None
         else Some \<lparr>f_type = Count, f_key = key, f_value = num, f_unit = Some unit,
                    f_raw = m_text m, f_file = filePath\<rparr>)"

text \<open>\<open>MAX_FILE_MB * 1024 * 1024\<close>\<close>

definition max_file_bytes :: nat where
  "max_file_bytes = 2 * 1024 * 1024"

text \<open>\<open>buf.toString("utf8")\<close>: the documents are taken to be ASCII text, one byte per
  character.\<close>

definition utf8_text :: "string \<Rightarrow> string" where
  "utf8_text buf = buf"

text \<open>The file system is a partial map from the path below the web root to the bytes of
  the file; a path without an entry is a file \<open>readFile\<close> fails on.\<close>

definition extractFacts :: "(string \<rightharpoonup> string) \<Rightarrow> string \<Rightarrow> fact list" where
  "extractFacts fs filePath =
     (case fs filePath of
        None \<Rightarrow> []
      | Some buf \<Rightarrow>
          if length buf > max_file_bytes then []
          else let text = utf8_text buf
               in if text = [] \<or> CHR 0x00 \<in> set text then []
                  else List.map_filter (dollar_fact text filePath) (exec_all False dollarRe [] text) @
                       List.map_filter (count_fact text filePath) (exec_all True countRe [] text))"

subsection \<open>main\<close>

text \<open>A \<open>Map\<close> filled by \<open>if (!m.has(k)) m.set(k, []); m.get(k).push(v)\<close>: an association
  list in the order in which the keys were first seen.\<close>

fun map_push :: "('k \<times> 'v list) list \<Rightarrow> 'k \<Rightarrow> 'v \<Rightarrow> ('k \<times> 'v list) list" where
  "map_push [] k v = [(k, [v])]"
| "map_push ((k', vs) # m) k v =
     (if k' = k then (k', vs @ [v]) # m else (k', vs) # map_push m k v)"

definition group_by :: "('v \<Rightarrow> 'k) \<Rightarrow> 'v list \<Rightarrow> ('k \<times> 'v list) list" where
  "group_by f xs = foldl (\<lambda>m x. map_push m (f x) x) [] xs"

record conflict =
  c_key :: string
  c_byValue :: "(jsnum \<times> fact list) list"
  c_list :: "fact list"

record cross_conflict =
  x_keys :: "string list"
  x_byValue :: "(jsnum \<times> fact list) list"
  x_facts :: "fact list"

text \<open>The loop over \<open>byKey.entries()\<close>.\<close>

definition direct_conflict :: "string \<times> fact list \<Rightarrow> conflict option" where
  "direct_conflict e =
     (case e of (key, list) \<Rightarrow>
        if length (uniq (map f_value list)) \<le> 1 then None
        else Some \<lparr>c_key = key, c_byValue = group_by f_value list, c_list = list\<rparr>)"

definition conflicts_of :: "(string \<times> fact list) list \<Rightarrow> conflict list" where
  "conflicts_of byKey = List.map_filter direct_conflict byKey"

text \<open>\<open>/replace|regex|exec|char|substr/\<close>\<close>

definition code_like2_re :: re where
  "code_like2_re =
     Alts [Str ''replace'', Str ''regex'', Str ''exec'', Str ''char'', Str ''substr'']"

text \<open>\<open>group.flatMap((k) => byKey.get(k) || [])\<close>\<close>

definition facts_in_group :: "(string \<times> fact list) list \<Rightarrow> string list \<Rightarrow> fact list" where
  "facts_in_group byKey grp = concat (map (\<lambda>k. the_default [] (map_of byKey k)) grp)"

text \<open>The test of line 178: every value is under 20 and some key looks like code.\<close>

definition small_code_like :: "(string \<times> fact list) list \<Rightarrow> string list \<Rightarrow> bool" where
  "small_code_like byKey grp =
     (list_all (\<lambda>v. less_js v (Num 20)) (map f_value (facts_in_group byKey grp)) \<and>
      list_ex (\<lambda>k. test False code_like2_re k) grp)"

text \<open>The loop over \<open>similarGroups\<close>.\<close>

definition cross_conflict_of ::
  "(string \<times> fact list) list \<Rightarrow> string list \<Rightarrow> cross_conflict option" where
  "cross_conflict_of byKey grp =
     (if length grp \<le> 1 then None
      else let allInGroup = facts_in_group byKey grp
           in if length (uniq (map f_value allInGroup)) \<le> 1 then None
              else if small_code_like byKey grp then None
              else Some \<lparr>x_keys = grp, x_byValue = group_by f_value allInGroup,
                         x_facts = allInGroup\<rparr>)"

definition crossGroupConflicts_of :: "(string \<times> fact list) list \<Rightarrow> cross_conflict list" where
  "crossGroupConflicts_of byKey =
     List.map_filter (cross_conflict_of byKey) (groupSimilarKeys byKey)"

text \<open>The cross-context conflicts the report prints: those without
  \<open>alreadyReported = conflicts.some((c) => keys.includes(c.key))\<close>.\<close>

definition alreadyReported :: "conflict list \<Rightarrow> cross_conflict \<Rightarrow> bool" where
  "alreadyReported conflicts x = list_ex (\<lambda>c. c_key c \<in> set (x_keys x)) conflicts"

definition reported_cross :: "conflict list \<Rightarrow> cross_conflict list \<Rightarrow> cross_conflict list" where
  "reported_cross conflicts xs = filter (\<lambda>x. \<not> alreadyReported conflicts x) xs"

text \<open>What the host supplies: \<open>Number.prototype.toString\<close> and
  \<open>Number.prototype.toLocaleString\<close> in the default locale.\<close>

record runtime =
  toString :: "jsnum \<Rightarrow> string"
  toLocaleString :: "jsnum \<Rightarrow> string"

text \<open>\<open>xs.join(sep)\<close>\<close>

fun join :: "string \<Rightarrow> string list \<Rightarrow> string" where
  "join sep [] = []"
| "join sep [x] = x"
| "join sep (x # xs) = x @ sep @ join sep xs"

text \<open>\<open>k.slice(0, n) + (k.length > n ? "..." : "")\<close>\<close>

definition ellipsis :: "nat \<Rightarrow> string \<Rightarrow> string" where
  "ellipsis n k = take n k @ (if length k > n then ''...'' else [])"

definition quoted :: "string \<Rightarrow> string" where
  "quoted s = [CHR 0x22] @ s @ [CHR 0x22]"

text \<open>Reading \<open>facts[0].type\<close> of an empty list throws.\<close>

datatype error = TypeError

text \<open>\<open>facts[0].type === "dollar" ? "$" + Number(val).toLocaleString() : val\<close>\<close>

definition value_text :: "runtime \<Rightarrow> jsnum \<Rightarrow> fact list \<Rightarrow> error + string" where
  "value_text rt val facts =
     (case facts of
        [] \<Rightarrow> Inl TypeError
      | f # _ \<Rightarrow> Inr (if f_type f = Dollar then ''$'' @ toLocaleString rt val
                      else toString rt val))"

text \<open>A loop that pushes lines and stops at the first exception.\<close>

fun lines_of :: "('a \<Rightarrow> error + string list) \<Rightarrow> 'a list \<Rightarrow> error + string list" where
  "lines_of f [] = Inr []"
| "lines_of f (x # xs) =
     (case f x of
        Inl e \<Rightarrow> Inl e
      | Inr ls \<Rightarrow> (case lines_of f xs of Inl e \<Rightarrow> Inl e | Inr ls' \<Rightarrow> Inr (ls @ ls')))"

definition direct_value_lines :: "runtime \<Rightarrow> jsnum \<times> fact list \<Rightarrow> error + string list" where
  "direct_value_lines rt e =
     (case e of (val, facts) \<Rightarrow>
        let files = uniq (map f_file facts);
            raw = uniq (map f_raw facts)
        in case value_text rt val facts of
             Inl err \<Rightarrow> Inl err
           | Inr v \<Rightarrow> Inr [''- Value: '' @ v @ ''  in '' @ join '', '' files,
                           ''  - Raw: '' @ join ''; '' raw])"

definition direct_lines :: "runtime \<Rightarrow> conflict \<Rightarrow> error + string list" where
  "direct_lines rt c =
     (case lines_of (direct_value_lines rt) (c_byValue c) of
        Inl err \<Rightarrow> Inl err
      | Inr ls \<Rightarrow> Inr ([''**Context:** '' @ quoted (ellipsis 80 (c_key c))] @ ls @ ['''']))"

definition cross_value_lines :: "runtime \<Rightarrow> jsnum \<times> fact list \<Rightarrow> error + string list" where
  "cross_value_lines rt e =
     (case e of (val, list) \<Rightarrow>
        let files = uniq (map f_file list)
        in case value_text rt val list of
             Inl err \<Rightarrow> Inl err
           | Inr v \<Rightarrow> Inr [''- Value: '' @ v @ ''  in '' @ join '', '' files])"

definition cross_lines :: "runtime \<Rightarrow> cross_conflict \<Rightarrow> error + string list" where
  "cross_lines rt x =
     (case lines_of (cross_value_lines rt) (x_byValue x) of
        Inl err \<Rightarrow> Inl err
      | Inr ls \<Rightarrow>
          Inr ([''**Similar contexts:** '' @
                  join '' | '' (map (\<lambda>k. quoted (ellipsis 50 k)) (take 3 (x_keys x)))] @
               ls @ ['''']))"

definition count_text :: "runtime \<Rightarrow> nat \<Rightarrow> string" where
  "count_text rt n = toString rt (Num (of_nat n))"

definition summary :: "runtime \<Rightarrow> nat \<Rightarrow> nat \<Rightarrow> nat \<Rightarrow> nat \<Rightarrow> string" where
  "summary rt totalFacts uniqueKeys nconflicts ncross =
     count_text rt totalFacts @ '' facts, '' @ count_text rt uniqueKeys @
     '' context keys; '' @ count_text rt nconflicts @ '' direct conflicts, '' @
     count_text rt ncross @ '' similar-context groups.''"

text \<open>The report body for the pooled facts: everything \<open>main\<close> does between the
  extraction loop and \<open>writeFile\<close>.\<close>

definition report_body :: "runtime \<Rightarrow> fact list \<Rightarrow> error + string" where
  "report_body rt allFacts =
     (let byKey = group_by f_key allFacts;
          conflicts = conflicts_of byKey;
          crossGroupConflicts = crossGroupConflicts_of byKey;
          head = [''# Discrepancy report (review before fixing)'', '''',
                  ''Generated from WEBROOT text documents. Fix only after reviewing.'', '''',
                  ''## 1. Conflicting numbers (same context key)'', ''''];
          mid = [''## 2. Possibly same topic, different numbers (similar context)'', '''',
                 ''May be ranges or different phases; review before treating as errors.'', ''''];
          tail = [''---'',
                  ''**Summary:** '' @ summary rt (length allFacts) (length byKey)
                     (length conflicts) (length crossGroupConflicts)]
      in case (if conflicts = [] then Inr [''None found.'']
               else lines_of (direct_lines rt) conflicts) of
           Inl err \<Rightarrow> Inl err
         | Inr sec1 \<Rightarrow>
             (case (if crossGroupConflicts = [] then Inr [''None found.'']
                    else lines_of (cross_lines rt)
                           (reported_cross conflicts crossGroupConflicts)) of
                Inl err \<Rightarrow> Inl err
              | Inr sec2 \<Rightarrow> Inr (join [CHR 0x0A] (head @ sec1 @ mid @ sec2 @ tail))))"

text \<open>The web root is a directory tree: a file has a name and its bytes, a directory a name
  and its entries in the order \<open>readdir\<close> lists them.\<close>

datatype entry = File string string | Dir string "entry list"

definition TEXT_EXT :: "string list" where
  "TEXT_EXT = [''.html'', ''.json'', ''.md'', ''.yml'', ''.yaml'', ''.txt'']"

definition IGNORE :: "string list" where
  "IGNORE = [''.git'', ''node_modules'', ''scripts'', ''fonts'', ''docs/assets'']"

text \<open>\<open>/\.[^.]+$/\<close> and \<open>(e.name.match(/\.[^.]+$/) || [""])[0].toLowerCase()\<close>\<close>

definition ext_re :: re where
  "ext_re = Seqs [Chr CHR ''.'', Plus (Cls (\<lambda>c. c \<noteq> CHR ''.'')), Eol]"

definition extension :: "string \<Rightarrow> string" where
  "extension name =
     toLowerCase (case match_re False ext_re name of None \<Rightarrow> [] | Some m \<Rightarrow> m_text m)"

text \<open>\<open>prefix ? `${prefix}/${e.name}` : e.name\<close>\<close>

definition rel_path :: "string \<Rightarrow> string \<Rightarrow> string" where
  "rel_path prefix name = (if prefix = [] then name else prefix @ ''/'' @ name)"

text \<open>The body of the loop of \<open>walk(dir, prefix)\<close> for one entry, and the loop. Every
  directory is taken to be readable.\<close>

fun walk_entry :: "string \<Rightarrow> entry \<Rightarrow> string list" where
  "walk_entry prefix (File name bytes) =
     (let rel = rel_path prefix name;
          norm = replace False (Chr CHR 0x5C) ''/'' rel
      in if name \<in> set IGNORE then []
         else if extension name \<in> set TEXT_EXT then [norm] else [])"
| "walk_entry prefix (Dir name entries) =
     (let rel = rel_path prefix name
      in if name \<in> set IGNORE then [] else concat (map (walk_entry rel) entries))"

definition walk :: "entry list \<Rightarrow> string \<Rightarrow> string list" where
  "walk entries prefix = concat (map (walk_entry prefix) entries)"

text \<open>\<open>readFile(join(WEBROOT, filePath))\<close>: the bytes of the file with that path below the
  web root, if there is one.\<close>

fun files_of :: "string \<Rightarrow> entry \<Rightarrow> (string \<times> string) list" where
  "files_of prefix (File name bytes) = [(rel_path prefix name, bytes)]"
| "files_of prefix (Dir name entries) = concat (map (files_of (rel_path prefix name)) entries)"

definition read_file :: "entry list \<Rightarrow> (string \<rightharpoonup> string)" where
  "read_file entries = map_of (concat (map (files_of []) entries))"

text \<open>The world \<open>main\<close> acts on: the web root and the console. The report is a file of the
  web root, \<open>discrepancy-report.md\<close>; the world lists the entries \<open>readdir\<close> returns before
  it and after it, so that \<open>writeFile\<close> creates or overwrites it in its place.\<close>

record world =
  entries_before :: "entry list"
  report_file :: "string option"
  entries_after :: "entry list"
  console :: "string list"

definition REPORT_NAME :: string where
  "REPORT_NAME = ''discrepancy-report.md''"

definition web_root :: "world \<Rightarrow> entry list" where
  "web_root w =
     entries_before w @
     (case report_file w of None \<Rightarrow> [] | Some body \<Rightarrow> [File REPORT_NAME body]) @
     entries_after w"

definition all_facts :: "(string \<rightharpoonup> string) \<Rightarrow> string list \<Rightarrow> fact list" where
  "all_facts fs files = concat (map (extractFacts fs) files)"

definition main :: "runtime \<Rightarrow> world \<Rightarrow> error + world" where
  "main rt w =
     (let w1 = w\<lparr>console := console w @ [''Scanning WEBROOT for text documents...'', '''']\<rparr>;
          files = walk (web_root w) [];
          allFacts = all_facts (read_file (web_root w)) files;
          byKey = group_by f_key allFacts
      in case report_body rt allFacts of
           Inl err \<Rightarrow> Inl err
         | Inr reportBody \<Rightarrow>
             Inr (w1\<lparr>report_file := Some reportBody,
                      console := console w1 @
                        [''Report written to discrepancy-report.md'',
                         ''Summary: '' @ summary rt (length allFacts) (length byKey)
                            (length (conflicts_of byKey)) (length (crossGroupConflicts_of byKey)),
                         ''Review the report before fixing.'']\<rparr>))"

subsection \<open>Properties of facts and sample inputs\<close>

text \<open>A monetary fact that the first loop of \<open>extractFacts\<close> discards as code-like: its
  value is under 10 and its key contains one of the words of \<open>code_like_re\<close>.\<close>

definition code_like_small :: "fact \<Rightarrow> bool" where
  "code_like_small f =
     (f_type f = Dollar \<and> less_js (f_value f) (Num 10) \<and> test False code_like_re (f_key f))"





text \<open>Count facts about dogs: two documents disagree under one key, a third states another
  number under a similar key.\<close>

definition count_of :: "string \<Rightarrow> rat \<Rightarrow> string \<Rightarrow> string \<Rightarrow> fact" where
  "count_of k n raw file =
     \<lparr>f_type = Count, f_key = k, f_value = Num n, f_unit = Some ''dogs'', f_raw = raw,
      f_file = file\<rparr>"

definition shelter_facts :: "fact list" where
  "shelter_facts =
     [count_of ''the shelter has # dogs'' 12 ''12 dogs'' ''a.md'',
      count_of ''the shelter has # dogs'' 15 ''15 dogs'' ''b.md'',
      count_of ''our shelter has # dogs'' 20 ''20 dogs'' ''c.md'']"

definition kennel_facts :: "fact list" where
  "kennel_facts =
     [count_of ''the shelter has # dogs'' 12 ''12 dogs'' ''a.md'',
      count_of ''our shelter has # dogs'' 20 ''20 dogs'' ''c.md'']"

text \<open>The matcher moves forward only: the state it ends in is the state it started in
  with some characters moved from the remaining text to the text before.\<close>

definition extends :: "mstate \<Rightarrow> mstate \<Rightarrow> bool" where
  "extends st st' \<longleftrightarrow>
     (\<exists>ys. fst (snd st) = ys @ fst (snd st') \<and> fst st' = rev ys @ fst st)"

text \<open>The characters of a finished context key.\<close>

definition plain_key_char :: "char \<Rightarrow> bool" where
  "plain_key_char c = (is_lower c \<or> is_digit c \<or> c = CHR ''#'' \<or> c = CHR '' '')"

text \<open>Sample documents: a version number next to an amount, an amount without digits, and
  an amount under 10 in text about pattern matching.\<close>

definition version_note :: string where
  "version_note = ''Version v2 costs $500 now''"

definition budget_note :: string where
  "budget_note = ''total budget was $, in all''"

definition regex_note :: string where
  "regex_note = ''match $2 regex, pay $50''"

subsection \<open>Numerals with a magnitude suffix\<close>

text \<open>A numeral: an integer part of digits and thousands separators with at least one
  digit, and a fraction of digits that may be empty; its text and its value.\<close>

definition numeral_text :: "string \<Rightarrow> string \<Rightarrow> string" where
  "numeral_text ip fp = ip @ (if fp = [] then [] else CHR ''.'' # fp)"

definition is_numeral :: "string \<Rightarrow> string \<Rightarrow> bool" where
  "is_numeral ip fp =
     (list_all (\<lambda>c. is_digit c \<or> c = CHR '','') ip \<and> list_ex is_digit ip \<and>
      list_all is_digit fp)"

definition numeral_value :: "string \<Rightarrow> string \<Rightarrow> rat" where
  "numeral_value ip fp =
     of_nat (digits_val (filter is_digit ip)) + of_nat (digits_val fp) / 10 ^ length fp"

text \<open>The magnitude suffixes and their multipliers.\<close>

definition magnitudes :: "(string \<times> rat) list" where
  "magnitudes =
     [([], 1), (''k'', 1000), (''K'', 1000), (''thousand'', 1000),
      (''M'', 1000000), (''m'', 1000000), (''million'', 1000000)]"

text \<open>The double nearest to \<open>v\<close>, and with a suffix its product with the multiplier,
  rounded again.\<close>

definition scaled :: "rat \<Rightarrow> rat \<Rightarrow> jsnum" where
  "scaled v m = (if m = 1 then round_double v else times_js (round_double v) (Num m))"

subsection \<open>The window of a context key after the masks\<close>

text \<open>The value of \<open>window\<close> in \<open>makeContextKey\<close> after line 43, and after the two masks of
  lines 44 and 45.\<close>

definition context_window :: "string \<Rightarrow> nat \<Rightarrow> string" where
  "context_window text pos =
     (let start = pos - 55;
          end = min (length text) (pos + 25)
      in trim (replace False ws_plus '' '' (take (end - start) (drop start text))))"

definition masked_window :: "string \<Rightarrow> nat \<Rightarrow> string" where
  "masked_window text pos =
     replace False mask_num_re ''#''
       (replace True mask_dollar_re ''$#'' (context_window text pos))"

text \<open>The last steps of \<open>makeContextKey\<close>, lines 46 and 47.\<close>

definition finish_key :: "string \<Rightarrow> string" where
  "finish_key window =
     slice_last 70 (trim (replace False ws_plus '' ''
       (replace False strip_re '' '' (toLowerCase window))))"

text \<open>A currency-amount-shaped substring begins with \<open>$\<close> and a digit, comma or period.\<close>

fun has_dollar_amount :: "string \<Rightarrow> bool" where
  "has_dollar_amount (c # d # r) =
     ((c = CHR ''$'' \<and> amount_char d) \<or> has_dollar_amount (d # r))"
| "has_dollar_amount _ = False"

text \<open>A standalone numeral is a run of digits with no word character before it and none
  after it. \<open>pw\<close> tells whether the character before the string is a word character.\<close>

definition prev_word :: "string \<Rightarrow> bool" where
  "prev_word pre = (case pre of [] \<Rightarrow> False | p # _ \<Rightarrow> is_word p)"

definition standalone_numeral_at :: "bool \<Rightarrow> string \<Rightarrow> bool" where
  "standalone_numeral_at pw s =
     (\<not> pw \<and> takeWhile is_digit s \<noteq> [] \<and>
      (case dropWhile is_digit s of [] \<Rightarrow> True | x # _ \<Rightarrow> \<not> is_word x))"

fun has_standalone_numeral :: "bool \<Rightarrow> string \<Rightarrow> bool" where
  "has_standalone_numeral pw [] = False"
| "has_standalone_numeral pw (c # cs) =
     (standalone_numeral_at pw (c # cs) \<or> has_standalone_numeral (is_word c) cs)"



section \<open>Properties\<close>

declare exec_from.simps [simp del] exec_all.simps [simp del] replace_all.simps [simp del]
  split_from.simps [simp del]

subsection \<open>Similarity and clustering\<close>

lemma set_uniq: "set (uniq xs) = set xs"
  by (induction xs rule: uniq.induct) auto

lemma distinct_uniq: "distinct (uniq xs)"
  by (induction xs rule: uniq.induct) (auto simp: set_uniq)

lemma distinct_key_words: "distinct (key_words a)"
  by (simp add: key_words_def distinct_uniq)

lemma key_inter_card: "key_inter a b = card (set (key_words a) \<inter> set (key_words b))"
proof -
  have "key_inter a b = card ({w. w \<in> set (key_words b)} \<inter> set (key_words a))"
    unfolding key_inter_def by (rule distinct_length_filter) (rule distinct_key_words)
  also have "{w. w \<in> set (key_words b)} \<inter> set (key_words a) = set (key_words a) \<inter> set (key_words b)"
    by auto
  finally show ?thesis .
qed

lemma key_union_card: "key_union a b = card (set (key_words a) \<union> set (key_words b))"
proof -
  have "key_union a b = card (set (uniq (key_words a @ key_words b)))"
    unfolding key_union_def by (rule distinct_card [symmetric]) (rule distinct_uniq)
  then show ?thesis by (simp add: set_uniq)
qed

lemma key_inter_le_union: "key_inter a b \<le> key_union a b"
  unfolding key_inter_card key_union_card
  by (rule card_mono) auto

lemma key_union_zero: "key_union a b = 0 \<longleftrightarrow> key_words a = [] \<and> key_words b = []"
  by (simp add: key_union_card)

text \<open>
  Claim C9. For every pair of context keys the word-overlap similarity is symmetric:
  \<open>keySimilarity a b\<close> equals \<open>keySimilarity b a\<close>.
\<close>

theorem keySimilarity_symmetric: "keySimilarity a b = keySimilarity b a"
proof -
  have "key_inter a b = key_inter b a"
    by (simp add: key_inter_card Int_commute)
  moreover have "key_union a b = key_union b a"
    by (simp add: key_union_card Un_commute)
  ultimately show ?thesis
    by (simp add: keySimilarity_def)
qed

text \<open>
  Claim C10. For every pair of strings \<open>keySimilarity\<close> returns a number in the closed
  interval from 0 to 1: the intersection size never exceeds the union size, the union size
  is 0 exactly when both token sets are empty, and then the result is 0.
\<close>

theorem keySimilarity_unit_interval:
  "0 \<le> keySimilarity a b \<and> keySimilarity a b \<le> 1 \<and>
   key_inter a b \<le> key_union a b \<and>
   (key_union a b = 0 \<longleftrightarrow> key_words a = [] \<and> key_words b = []) \<and>
   (key_words a = [] \<and> key_words b = [] \<longrightarrow> keySimilarity a b = 0)"
proof -
  have le: "key_inter a b \<le> key_union a b" by (rule key_inter_le_union)
  have z: "key_union a b = 0 \<longleftrightarrow> key_words a = [] \<and> key_words b = []"
    by (rule key_union_zero)
  have nonneg: "0 \<le> keySimilarity a b"
    by (simp add: keySimilarity_def)
  have le1: "keySimilarity a b \<le> 1"
  proof (cases "key_union a b = 0")
    case True
    then show ?thesis by (simp add: keySimilarity_def)
  next
    case False
    then have "(of_nat (key_inter a b) :: rat) / of_nat (key_union a b) \<le> 1"
      using le by (simp add: divide_le_eq_1)
    with False show ?thesis by (simp add: keySimilarity_def)
  qed
  have zero: "key_words a = [] \<and> key_words b = [] \<longrightarrow> keySimilarity a b = 0"
    using z by (simp add: keySimilarity_def)
  from nonneg le1 le z zero show ?thesis by blast
qed

theorem keySimilarity_unit_interval_witness:
  "key_words ''#'' = [] \<and> key_words '' a '' = [] \<and> keySimilarity ''#'' '' a '' = 0 \<and>
   0 \<le> keySimilarity ''big dogs'' ''big cats'' \<and> keySimilarity ''big dogs'' ''big cats'' \<le> 1 \<and>
   keySimilarity ''big dogs'' ''big cats'' = 1 / 3"
proof -
  have e1: "key_words ''#'' = []" by code_simp
  have e2: "key_words '' a '' = []" by code_simp
  have v: "keySimilarity ''big dogs'' ''big cats'' = 1 / 3" by code_simp
  from keySimilarity_unit_interval [of "''#''" "'' a ''"] e1 e2
  have "keySimilarity ''#'' '' a '' = 0" by blast
  with e1 e2 v keySimilarity_unit_interval [of "''big dogs''" "''big cats''"]
  show ?thesis by simp
qed

lemma absorb_appends:
  "\<exists>new. absorb ks used grp = (used @ new, grp @ new) \<and> distinct new \<and>
         set new \<inter> set used = {} \<and> set new \<subseteq> set ks"
proof (induction ks arbitrary: used grp)
  case Nil
  show ?case by simp
next
  case (Cons k ks)
  show ?case
  proof (cases "k \<in> set used")
    case True
    from Cons.IH [of used grp] obtain new where
      "absorb ks used grp = (used @ new, grp @ new)" "distinct new"
      "set new \<inter> set used = {}" "set new \<subseteq> set ks" by blast
    with True show ?thesis by auto
  next
    case notused: False
    show ?thesis
    proof (cases "list_ex (\<lambda>g. keySimilarity g k \<ge> 1 / 2) grp")
      case True
      from Cons.IH [of "used @ [k]" "grp @ [k]"] obtain new where n:
        "absorb ks (used @ [k]) (grp @ [k]) = ((used @ [k]) @ new, (grp @ [k]) @ new)"
        "distinct new" "set new \<inter> set (used @ [k]) = {}" "set new \<subseteq> set ks" by blast
      have "absorb (k # ks) used grp = (used @ (k # new), grp @ (k # new))"
        using notused True n(1) by simp
      moreover have "distinct (k # new)" using n(2,3) by auto
      moreover have "set (k # new) \<inter> set used = {}" using n(3) notused by auto
      moreover have "set (k # new) \<subseteq> set (k # ks)" using n(4) by auto
      ultimately show ?thesis by blast
    next
      case False
      from Cons.IH [of used grp] obtain new where
        "absorb ks used grp = (used @ new, grp @ new)" "distinct new"
        "set new \<inter> set used = {}" "set new \<subseteq> set ks" by blast
      with notused False show ?thesis by auto
    qed
  qed
qed

lemma group_loop_partition:
  "distinct used \<Longrightarrow> concat groups = used \<Longrightarrow> [] \<notin> set groups \<Longrightarrow>
   distinct (concat (group_loop keys ks used groups)) \<and>
   set used \<union> set ks \<subseteq> set (concat (group_loop keys ks used groups)) \<and>
   set (concat (group_loop keys ks used groups)) \<subseteq> set used \<union> set ks \<union> set keys \<and>
   [] \<notin> set (group_loop keys ks used groups)"
proof (induction ks arbitrary: used groups)
  case Nil
  then show ?case by auto
next
  case (Cons k ks)
  show ?case
  proof (cases "k \<in> set used")
    case True
    with Cons.IH [OF Cons.prems] show ?thesis by auto
  next
    case False
    obtain new where n: "absorb keys (used @ [k]) [k] = ((used @ [k]) @ new, [k] @ new)"
      "distinct new" "set new \<inter> set (used @ [k]) = {}" "set new \<subseteq> set keys"
      using absorb_appends [of keys "used @ [k]" "[k]"] by blast
    let ?used = "(used @ [k]) @ new" and ?groups = "groups @ [[k] @ new]"
    have d: "distinct ?used" using Cons.prems(1) False n(2,3) by auto
    have c: "concat ?groups = ?used" using Cons.prems(2) by simp
    have e: "[] \<notin> set ?groups" using Cons.prems(3) by simp
    have step: "group_loop keys (k # ks) used groups = group_loop keys ks ?used ?groups"
      using False n(1) by simp
    from Cons.IH [OF d c e] n(4) show ?thesis
      unfolding step by auto
  qed
qed

lemma concat_member_unique:
  assumes d: "distinct (concat gs)" and e: "[] \<notin> set gs"
    and i: "i < length gs" and j: "j < length gs"
    and ki: "k \<in> set (gs ! i)" and kj: "k \<in> set (gs ! j)"
  shows "i = j"
proof (rule ccontr)
  assume ne: "i \<noteq> j"
  from e have ra: "removeAll [] gs = gs" by simp
  from d have dg: "distinct gs" and
    disj: "\<And>ys zs. ys \<in> set gs \<Longrightarrow> zs \<in> set gs \<Longrightarrow> ys \<noteq> zs \<Longrightarrow> set ys \<inter> set zs = {}"
    unfolding distinct_concat_iff ra by blast+
  from dg i j ne have "gs ! i \<noteq> gs ! j" by (simp add: nth_eq_iff_index_eq)
  with disj [of "gs ! i" "gs ! j"] i j ki kj show False by auto
qed

text \<open>
  Claim C5. The greedy single-link clustering produces a partition of the context keys:
  the clusters jointly cover the keys of the map, no key occurs twice in the clusters
  taken together (so the clusters are pairwise disjoint and an assigned key is never
  assigned again), no cluster is empty, and every key lies in exactly one cluster.
\<close>

theorem groupSimilarKeys_partition:
  "set (concat (groupSimilarKeys m)) = fst ` set m \<and>
   distinct (concat (groupSimilarKeys m)) \<and>
   [] \<notin> set (groupSimilarKeys m) \<and>
   (\<forall>k \<in> fst ` set m. \<exists>!i. i < length (groupSimilarKeys m) \<and> k \<in> set (groupSimilarKeys m ! i))"
proof -
  let ?gs = "groupSimilarKeys m"
  have gs: "?gs = group_loop (map fst m) (map fst m) [] []"
    by (simp add: groupSimilarKeys_def Let_def)
  from group_loop_partition [of "[]" "[]" "map fst m" "map fst m"]
  have d: "distinct (concat ?gs)" and s: "set (concat ?gs) = fst ` set m" and e: "[] \<notin> set ?gs"
    unfolding gs by auto
  have "\<exists>!i. i < length ?gs \<and> k \<in> set (?gs ! i)" if "k \<in> fst ` set m" for k
  proof -
    from that s have "k \<in> set (concat ?gs)" by simp
    then obtain g where "g \<in> set ?gs" "k \<in> set g" by auto
    then obtain i where "i < length ?gs" "k \<in> set (?gs ! i)"
      by (auto simp: in_set_conv_nth)
    then show ?thesis
      using concat_member_unique [OF d e] by blast
  qed
  with d s e show ?thesis by blast
qed


theorem groupSimilarKeys_partition_witness:
  "groupSimilarKeys [(''ab cd ef'', ()), (''xx yy'', ()), (''ab cd zz'', ()), (''xx yy ww'', ())]
     = [[''ab cd ef'', ''ab cd zz''], [''xx yy'', ''xx yy ww'']] \<and>
   ''ab cd zz'' \<in> fst ` set [(''ab cd ef'', ()), (''xx yy'', ()), (''ab cd zz'', ()), (''xx yy ww'', ())] \<and>
   (\<exists>!i. i < length (groupSimilarKeys
             [(''ab cd ef'', ()), (''xx yy'', ()), (''ab cd zz'', ()), (''xx yy ww'', ())]) \<and>
          ''ab cd zz'' \<in> set (groupSimilarKeys
             [(''ab cd ef'', ()), (''xx yy'', ()), (''ab cd zz'', ()), (''xx yy ww'', ())] ! i))"
proof -
  let ?m = "[(''ab cd ef'', ()), (''xx yy'', ()), (''ab cd zz'', ()), (''xx yy ww'', ())]"
  have v: "groupSimilarKeys ?m = [[''ab cd ef'', ''ab cd zz''], [''xx yy'', ''xx yy ww'']]"
    by code_simp
  have k: "''ab cd zz'' \<in> fst ` set ?m" by simp
  from groupSimilarKeys_partition [of ?m] k
  have "\<exists>!i. i < length (groupSimilarKeys ?m) \<and> ''ab cd zz'' \<in> set (groupSimilarKeys ?m ! i)"
    by blast
  with v k show ?thesis by blast
qed

subsection \<open>Maps built by pushing\<close>

lemma in_set_map_filter: "x \<in> set (List.map_filter f xs) \<longleftrightarrow> (\<exists>y \<in> set xs. f y = Some x)"
  by (induction xs) (auto simp: map_filter_simps split: option.splits)

lemma map_push_nonempty: "\<forall>(k, vs) \<in> set m. vs \<noteq> [] \<Longrightarrow> \<forall>(k, vs) \<in> set (map_push m k v). vs \<noteq> []"
  by (induction m k v rule: map_push.induct) auto

lemma map_push_values:
  "(k', vs) \<in> set (map_push m k v) \<Longrightarrow> set vs \<subseteq> insert v (\<Union>(set ` snd ` set m))"
  by (induction m k v rule: map_push.induct) (auto split: if_splits)

lemma foldl_map_push_nonempty:
  "\<forall>(k, vs) \<in> set m. vs \<noteq> [] \<Longrightarrow> \<forall>(k, vs) \<in> set (foldl (\<lambda>m x. map_push m (f x) x) m xs). vs \<noteq> []"
proof (induction xs arbitrary: m)
  case Nil
  then show ?case by simp
next
  case (Cons x xs)
  from map_push_nonempty [OF Cons.prems] have "\<forall>(k, vs)\<in>set (map_push m (f x) x). vs \<noteq> []" .
  from Cons.IH [OF this] show ?case by simp
qed

lemma foldl_map_push_values:
  "(k, vs) \<in> set (foldl (\<lambda>m x. map_push m (f x) x) m xs) \<Longrightarrow>
   set vs \<subseteq> set xs \<union> \<Union>(set ` snd ` set m)"
proof (induction xs arbitrary: m)
  case Nil
  then show ?case by force
next
  case (Cons x xs)
  from Cons.IH [OF Cons.prems [simplified]]
  have "set vs \<subseteq> set xs \<union> \<Union>(set ` snd ` set (map_push m (f x) x))" .
  moreover have "\<Union>(set ` snd ` set (map_push m (f x) x)) \<subseteq> insert x (\<Union>(set ` snd ` set m))"
    using map_push_values [of _ _ m "f x" x] by fastforce
  ultimately show ?case by auto
qed

lemma group_by_nonempty: "(k, vs) \<in> set (group_by f xs) \<Longrightarrow> vs \<noteq> []"
  using foldl_map_push_nonempty [of "[]" f xs] by (auto simp: group_by_def)

lemma group_by_values: "(k, vs) \<in> set (group_by f xs) \<Longrightarrow> set vs \<subseteq> set xs"
  using foldl_map_push_values [of k vs f "[]" xs] by (simp add: group_by_def)

lemma facts_in_group_subset:
  "set (facts_in_group (group_by f_key facts) grp) \<subseteq> set facts"
proof
  fix x assume "x \<in> set (facts_in_group (group_by f_key facts) grp)"
  then obtain k where "k \<in> set grp" "x \<in> set (the_default [] (map_of (group_by f_key facts) k))"
    by (auto simp: facts_in_group_def)
  then obtain vs where "map_of (group_by f_key facts) k = Some vs" "x \<in> set vs"
    by (cases "map_of (group_by f_key facts) k") (auto simp: the_default_def)
  then have "(k, vs) \<in> set (group_by f_key facts)" by (simp add: map_of_SomeD)
  from group_by_values [OF this] \<open>x \<in> set vs\<close> show "x \<in> set facts" by auto
qed

subsection \<open>The report is always produced\<close>

lemma lines_of_total: "(\<And>x. x \<in> set xs \<Longrightarrow> \<exists>ls. f x = Inr ls) \<Longrightarrow> \<exists>ls. lines_of f xs = Inr ls"
proof (induction xs)
  case Nil
  show ?case by simp
next
  case (Cons x xs)
  from Cons.prems [of x] obtain ls where "f x = Inr ls" by auto
  moreover from Cons.IH Cons.prems obtain ls' where "lines_of f xs = Inr ls'" by auto
  ultimately show ?case by simp
qed

lemma value_text_total: "facts \<noteq> [] \<Longrightarrow> \<exists>v. value_text rt val facts = Inr v"
  by (cases facts) (simp_all add: value_text_def)

lemma direct_value_lines_total: "snd e \<noteq> [] \<Longrightarrow> \<exists>ls. direct_value_lines rt e = Inr ls"
proof -
  assume "snd e \<noteq> []"
  then obtain v where "value_text rt (fst e) (snd e) = Inr v"
    using value_text_total by blast
  then show ?thesis by (cases e) (simp add: direct_value_lines_def Let_def)
qed

lemma cross_value_lines_total: "snd e \<noteq> [] \<Longrightarrow> \<exists>ls. cross_value_lines rt e = Inr ls"
proof -
  assume "snd e \<noteq> []"
  then obtain v where "value_text rt (fst e) (snd e) = Inr v"
    using value_text_total by blast
  then show ?thesis by (cases e) (simp add: cross_value_lines_def Let_def)
qed

lemma direct_conflict_Some:
  "direct_conflict e = Some c \<Longrightarrow>
   c = \<lparr>c_key = fst e, c_byValue = group_by f_value (snd e), c_list = snd e\<rparr> \<and>
   1 < length (uniq (map f_value (snd e)))"
  by (cases e) (simp add: direct_conflict_def split: if_splits)

lemma cross_conflict_of_Some:
  "cross_conflict_of byKey g = Some x \<Longrightarrow>
   x = \<lparr>x_keys = g, x_byValue = group_by f_value (facts_in_group byKey g),
        x_facts = facts_in_group byKey g\<rparr> \<and>
   1 < length g \<and> 1 < length (uniq (map f_value (facts_in_group byKey g))) \<and>
   \<not> small_code_like byKey g"
  by (simp add: cross_conflict_of_def Let_def split: if_splits)

lemma direct_lines_total:
  assumes "c \<in> set (conflicts_of byKey)"
  shows "\<exists>ls. direct_lines rt c = Inr ls"
proof -
  from assms obtain e where "e \<in> set byKey" "direct_conflict e = Some c"
    by (auto simp: conflicts_of_def in_set_map_filter)
  then obtain list where bv: "c_byValue c = group_by f_value list"
    using direct_conflict_Some [of e c] by (cases c) auto
  have "\<exists>ls. direct_value_lines rt x = Inr ls" if "x \<in> set (c_byValue c)" for x
    using that bv group_by_nonempty [of "fst x" "snd x" f_value list]
    by (intro direct_value_lines_total) simp
  from lines_of_total [of "c_byValue c" "direct_value_lines rt", OF this]
  obtain ls where "lines_of (direct_value_lines rt) (c_byValue c) = Inr ls" by blast
  then show ?thesis by (simp add: direct_lines_def)
qed

lemma cross_lines_total:
  assumes "x \<in> set (crossGroupConflicts_of byKey)"
  shows "\<exists>ls. cross_lines rt x = Inr ls"
proof -
  from assms obtain g where "cross_conflict_of byKey g = Some x"
    by (auto simp: crossGroupConflicts_of_def in_set_map_filter)
  then obtain list where bv: "x_byValue x = group_by f_value list"
    using cross_conflict_of_Some [of byKey g x] by (cases x) auto
  have "\<exists>ls. cross_value_lines rt e = Inr ls" if "e \<in> set (x_byValue x)" for e
    using that bv group_by_nonempty [of "fst e" "snd e" f_value list]
    by (intro cross_value_lines_total) simp
  from lines_of_total [of "x_byValue x" "cross_value_lines rt", OF this]
  obtain ls where "lines_of (cross_value_lines rt) (x_byValue x) = Inr ls" by blast
  then show ?thesis by (simp add: cross_lines_def)
qed

lemma report_body_total: "\<exists>body. report_body rt allFacts = Inr body"
proof -
  let ?byKey = "group_by f_key allFacts"
  obtain s1 where s1: "(if conflicts_of ?byKey = [] then Inr [''None found.'']
       else lines_of (direct_lines rt) (conflicts_of ?byKey)) = Inr s1"
    using lines_of_total [of "conflicts_of ?byKey" "direct_lines rt"] direct_lines_total
    by (cases "conflicts_of ?byKey = []") auto
  have "\<exists>ls. lines_of (cross_lines rt)
          (reported_cross (conflicts_of ?byKey) (crossGroupConflicts_of ?byKey)) = Inr ls"
    by (rule lines_of_total) (auto simp: reported_cross_def intro: cross_lines_total)
  then obtain s2 where s2: "(if crossGroupConflicts_of ?byKey = [] then Inr [''None found.'']
       else lines_of (cross_lines rt)
              (reported_cross (conflicts_of ?byKey) (crossGroupConflicts_of ?byKey))) = Inr s2"
    by (cases "crossGroupConflicts_of ?byKey = []") auto
  show ?thesis
    unfolding report_body_def Let_def s1 s2 by simp
qed

lemma main_total: "\<exists>w'. main rt w = Inr w'"
proof -
  obtain body where
    "report_body rt (all_facts (read_file (web_root w)) (walk (web_root w) [])) = Inr body"
    using report_body_total by blast
  then show ?thesis by (simp add: main_def Let_def)
qed

subsection \<open>Skipped documents\<close>

lemma all_facts_append: "all_facts fs (xs @ ys) = all_facts fs xs @ all_facts fs ys"
  by (simp add: all_facts_def)

text \<open>
  Claim C7. A document whose size exceeds the cap of 2 MB, or whose content has a null
  byte, yields the empty fact list: the pooled facts are those of the corpus without it,
  and \<open>main\<close> still returns normally.
\<close>

theorem extractFacts_skips_oversized_or_binary:
  assumes "fs p = Some buf"
    and "max_file_bytes < length buf \<or> CHR 0x00 \<in> set (utf8_text buf)"
  shows "extractFacts fs p = [] \<and>
         all_facts fs (before @ [p] @ after) = all_facts fs (before @ after) \<and>
         (\<exists>w'. main rt w = Inr w')"
proof -
  have e: "extractFacts fs p = []"
    using assms by (auto simp: extractFacts_def Let_def)
  then have "all_facts fs (before @ [p] @ after) = all_facts fs (before @ after)"
    by (simp add: all_facts_def)
  with e main_total show ?thesis by blast
qed

theorem extractFacts_skips_oversized_or_binary_witness:
  "max_file_bytes < length (replicate 2097153 CHR ''a'') \<and>
   extractFacts [''big.txt'' \<mapsto> replicate 2097153 CHR ''a''] ''big.txt'' = [] \<and>
   CHR 0x00 \<in> set (utf8_text [CHR ''a'', CHR 0x00, CHR ''b'']) \<and>
   extractFacts [''bin.txt'' \<mapsto> [CHR ''a'', CHR 0x00, CHR ''b'']] ''bin.txt'' = []"
proof -
  have big: "max_file_bytes < length (replicate 2097153 CHR ''a'')"
    by (simp add: max_file_bytes_def)
  have nul: "CHR 0x00 \<in> set (utf8_text [CHR ''a'', CHR 0x00, CHR ''b''])"
    by (simp add: utf8_text_def)
  have "extractFacts [''big.txt'' \<mapsto> replicate 2097153 CHR ''a''] ''big.txt'' = []"
    using extractFacts_skips_oversized_or_binary
      [of "[''big.txt'' \<mapsto> replicate 2097153 CHR ''a'']" "''big.txt''"
          "replicate 2097153 CHR ''a''" "[]" "[]"] big
    by simp
  moreover have "extractFacts [''bin.txt'' \<mapsto> [CHR ''a'', CHR 0x00, CHR ''b'']] ''bin.txt'' = []"
    using extractFacts_skips_oversized_or_binary
      [of "[''bin.txt'' \<mapsto> [CHR ''a'', CHR 0x00, CHR ''b'']]" "''bin.txt''"
          "[CHR ''a'', CHR 0x00, CHR ''b'']" "[]" "[]"] nul
    by simp
  ultimately show ?thesis using big nul by blast
qed

subsection \<open>Code-like small amounts\<close>

lemma dollar_fact_not_code_like: "dollar_fact text p m = Some f \<Longrightarrow> \<not> code_like_small f"
  by (auto simp: dollar_fact_def code_like_small_def Let_def split: option.splits if_splits)

lemma count_fact_type: "count_fact text p m = Some f \<Longrightarrow> f_type f = Count"
  by (auto simp: count_fact_def Let_def split: if_splits)

lemma extractFacts_not_code_like: "f \<in> set (extractFacts fs p) \<Longrightarrow> \<not> code_like_small f"
proof -
  assume "f \<in> set (extractFacts fs p)"
  then obtain t m where
    "dollar_fact t p m = Some f \<or> count_fact t p m = Some f"
    by (auto simp: extractFacts_def Let_def in_set_map_filter split: option.splits if_splits)
  then show ?thesis
    using dollar_fact_not_code_like count_fact_type by (auto simp: code_like_small_def)
qed

lemma all_facts_not_code_like: "f \<in> set (all_facts fs files) \<Longrightarrow> \<not> code_like_small f"
  by (auto simp: all_facts_def dest: extractFacts_not_code_like)

text \<open>
  Claim C6. A monetary match whose value is under 10 and whose context key contains one
  of \<open>replace\<close>, \<open>regex\<close>, \<open>exec\<close>, \<open>match\<close>, \<open>substr\<close>, \<open>char\<close> is discarded by
  \<open>extractFacts\<close>: no fact it returns is such a match, and so none of the facts of a direct
  conflict or of a cross-context conflict of the report is.
\<close>

theorem code_like_small_amounts_discarded:
  "(\<forall>f \<in> set (extractFacts fs p). \<not> code_like_small f) \<and>
   (\<forall>c \<in> set (conflicts_of (group_by f_key (all_facts fs files))).
      \<forall>f \<in> set (c_list c). \<not> code_like_small f) \<and>
   (\<forall>x \<in> set (crossGroupConflicts_of (group_by f_key (all_facts fs files))).
      \<forall>f \<in> set (x_facts x). \<not> code_like_small f)"
proof -
  let ?facts = "all_facts fs files"
  have a: "\<forall>f \<in> set (extractFacts fs p). \<not> code_like_small f"
    using extractFacts_not_code_like by blast
  have b: "\<not> code_like_small f"
    if "c \<in> set (conflicts_of (group_by f_key ?facts))" "f \<in> set (c_list c)" for c f
  proof -
    from that(1) obtain e where e: "e \<in> set (group_by f_key ?facts)" "direct_conflict e = Some c"
      by (auto simp: conflicts_of_def in_set_map_filter)
    from direct_conflict_Some [OF e(2)] have "c_list c = snd e" by simp
    with e(1) group_by_values [of "fst e" "snd e" f_key ?facts] that(2)
    have "f \<in> set ?facts" by auto
    then show ?thesis by (rule all_facts_not_code_like)
  qed
  have c: "\<not> code_like_small f"
    if "x \<in> set (crossGroupConflicts_of (group_by f_key ?facts))" "f \<in> set (x_facts x)" for x f
  proof -
    from that(1) obtain g where "cross_conflict_of (group_by f_key ?facts) g = Some x"
      by (auto simp: crossGroupConflicts_of_def in_set_map_filter)
    from cross_conflict_of_Some [OF this]
    have "x_facts x = facts_in_group (group_by f_key ?facts) g" by simp
    with that(2) facts_in_group_subset [of ?facts g] have "f \<in> set ?facts" by auto
    then show ?thesis by (rule all_facts_not_code_like)
  qed
  from a b c show ?thesis by blast
qed

subsection \<open>Suppression of cross-context conflicts\<close>

lemma shelter_cross:
  "map x_keys (crossGroupConflicts_of (group_by f_key shelter_facts)) =
     [[''the shelter has # dogs'', ''our shelter has # dogs'']]"
  by code_simp

lemma shelter_direct:
  "map c_key (conflicts_of (group_by f_key shelter_facts)) = [''the shelter has # dogs'']"
  by code_simp

lemma shelter_reported:
  "reported_cross (conflicts_of (group_by f_key shelter_facts))
     (crossGroupConflicts_of (group_by f_key shelter_facts)) = []"
  by code_simp

text \<open>
  Claim C4 as stated, that a cross-context conflict is left out of the report exactly when
  every one of its keys is the key of a direct conflict, fails: the cluster of
  \<open>shelter_facts\<close> is left out although only one of its two keys has a direct conflict.
\<close>

theorem cross_conflict_suppressed_counterexample:
  "\<not> (\<forall>x \<in> set (crossGroupConflicts_of (group_by f_key shelter_facts)).
        (x \<notin> set (reported_cross (conflicts_of (group_by f_key shelter_facts))
                     (crossGroupConflicts_of (group_by f_key shelter_facts)))) \<longleftrightarrow>
        (\<forall>k \<in> set (x_keys x). k \<in> set (map c_key (conflicts_of (group_by f_key shelter_facts)))))"
proof
  let ?xs = "crossGroupConflicts_of (group_by f_key shelter_facts)"
  assume a: "\<forall>x \<in> set ?xs.
        (x \<notin> set (reported_cross (conflicts_of (group_by f_key shelter_facts)) ?xs)) \<longleftrightarrow>
        (\<forall>k \<in> set (x_keys x). k \<in> set (map c_key (conflicts_of (group_by f_key shelter_facts))))"
  from shelter_cross obtain x where x: "x \<in> set ?xs"
    "x_keys x = [''the shelter has # dogs'', ''our shelter has # dogs'']"
    by (cases ?xs) auto
  from a x(1) have "\<forall>k \<in> set (x_keys x). k \<in> set (map c_key (conflicts_of (group_by f_key shelter_facts)))"
    unfolding shelter_reported by simp
  then show False unfolding x(2) shelter_direct by simp
qed

text \<open>
  Claim C4, amended. A cluster with at least two distinct values is reported as a
  cross-context conflict exactly when it has at least two keys, is not discarded by the
  test for small values next to code-like keys, and none of its keys is the key of a
  direct conflict; so it is suppressed as soon as one of its keys is covered.
\<close>

theorem cross_conflict_reported_iff:
  "\<forall>g \<in> set (groupSimilarKeys (group_by f_key facts)).
     1 < length (uniq (map f_value (facts_in_group (group_by f_key facts) g))) \<longrightarrow>
     ((\<exists>x \<in> set (reported_cross (conflicts_of (group_by f_key facts))
                    (crossGroupConflicts_of (group_by f_key facts))). x_keys x = g) \<longleftrightarrow>
      (1 < length g \<and> \<not> small_code_like (group_by f_key facts) g \<and>
       \<not> (\<exists>k \<in> set g. k \<in> set (map c_key (conflicts_of (group_by f_key facts))))))"
proof (intro ballI impI)
  fix g
  let ?byKey = "group_by f_key facts"
  let ?cs = "conflicts_of ?byKey"
  assume g: "g \<in> set (groupSimilarKeys ?byKey)"
    and v: "1 < length (uniq (map f_value (facts_in_group ?byKey g)))"
  have rep: "alreadyReported ?cs x \<longleftrightarrow> (\<exists>k \<in> set (x_keys x). k \<in> set (map c_key ?cs))" for x
    by (auto simp: alreadyReported_def list_ex_iff)
  show "(\<exists>x \<in> set (reported_cross ?cs (crossGroupConflicts_of ?byKey)). x_keys x = g) \<longleftrightarrow>
      (1 < length g \<and> \<not> small_code_like ?byKey g \<and>
       \<not> (\<exists>k \<in> set g. k \<in> set (map c_key ?cs)))"
  proof
    assume "\<exists>x \<in> set (reported_cross ?cs (crossGroupConflicts_of ?byKey)). x_keys x = g"
    then obtain x where x: "x \<in> set (crossGroupConflicts_of ?byKey)" "\<not> alreadyReported ?cs x"
      "x_keys x = g" by (auto simp: reported_cross_def)
    from x(1) obtain g' where "cross_conflict_of ?byKey g' = Some x"
      by (auto simp: crossGroupConflicts_of_def in_set_map_filter)
    from cross_conflict_of_Some [OF this] x(3)
    have "1 < length g" "\<not> small_code_like ?byKey g" by auto
    with x(2,3) rep [of x] show "1 < length g \<and> \<not> small_code_like ?byKey g \<and>
       \<not> (\<exists>k \<in> set g. k \<in> set (map c_key ?cs))" by simp
  next
    assume r: "1 < length g \<and> \<not> small_code_like ?byKey g \<and>
       \<not> (\<exists>k \<in> set g. k \<in> set (map c_key ?cs))"
    let ?x = "\<lparr>x_keys = g, x_byValue = group_by f_value (facts_in_group ?byKey g),
               x_facts = facts_in_group ?byKey g\<rparr>"
    from r v have "cross_conflict_of ?byKey g = Some ?x"
      by (simp add: cross_conflict_of_def Let_def)
    with g have "?x \<in> set (crossGroupConflicts_of ?byKey)"
      by (auto simp: crossGroupConflicts_of_def in_set_map_filter)
    moreover from r rep [of ?x] have "\<not> alreadyReported ?cs ?x" by simp
    ultimately have "?x \<in> set (reported_cross ?cs (crossGroupConflicts_of ?byKey))"
      by (simp add: reported_cross_def)
    then show "\<exists>x \<in> set (reported_cross ?cs (crossGroupConflicts_of ?byKey)). x_keys x = g"
      by force
  qed
qed

lemma kennel_groups:
  "groupSimilarKeys (group_by f_key kennel_facts) =
     [[''the shelter has # dogs'', ''our shelter has # dogs'']]"
  by code_simp

lemma kennel_values:
  "uniq (map f_value (facts_in_group (group_by f_key kennel_facts)
      [''the shelter has # dogs'', ''our shelter has # dogs''])) = [Num 12, Num 20]"
  by code_simp

lemma kennel_reported:
  "map x_keys (reported_cross (conflicts_of (group_by f_key kennel_facts))
     (crossGroupConflicts_of (group_by f_key kennel_facts))) =
   [[''the shelter has # dogs'', ''our shelter has # dogs'']]"
  by code_simp

theorem cross_conflict_reported_iff_witness:
  "[''the shelter has # dogs'', ''our shelter has # dogs''] \<in>
     set (groupSimilarKeys (group_by f_key kennel_facts)) \<and>
   1 < length (uniq (map f_value (facts_in_group (group_by f_key kennel_facts)
         [''the shelter has # dogs'', ''our shelter has # dogs'']))) \<and>
   map x_keys (reported_cross (conflicts_of (group_by f_key kennel_facts))
     (crossGroupConflicts_of (group_by f_key kennel_facts))) =
     [[''the shelter has # dogs'', ''our shelter has # dogs'']] \<and>
   \<not> small_code_like (group_by f_key kennel_facts)
       [''the shelter has # dogs'', ''our shelter has # dogs''] \<and>
   ''the shelter has # dogs'' \<notin> set (map c_key (conflicts_of (group_by f_key kennel_facts))) \<and>
   ''our shelter has # dogs'' \<notin> set (map c_key (conflicts_of (group_by f_key kennel_facts)))"
proof -
  let ?g = "[''the shelter has # dogs'', ''our shelter has # dogs'']"
  have g: "?g \<in> set (groupSimilarKeys (group_by f_key kennel_facts))"
    unfolding kennel_groups by simp
  have v: "1 < length (uniq (map f_value (facts_in_group (group_by f_key kennel_facts) ?g)))"
    unfolding kennel_values by simp
  have "\<exists>x \<in> set (reported_cross (conflicts_of (group_by f_key kennel_facts))
                    (crossGroupConflicts_of (group_by f_key kennel_facts))). x_keys x = ?g"
    using kennel_reported
    by (cases "reported_cross (conflicts_of (group_by f_key kennel_facts))
                    (crossGroupConflicts_of (group_by f_key kennel_facts))") auto
  with cross_conflict_reported_iff [of kennel_facts] g v
  have "1 < length ?g \<and> \<not> small_code_like (group_by f_key kennel_facts) ?g \<and>
       \<not> (\<exists>k \<in> set ?g. k \<in> set (map c_key (conflicts_of (group_by f_key kennel_facts))))"
    by blast
  with g v kennel_reported show ?thesis by simp
qed

subsection \<open>The matcher only moves forward\<close>

lemma extends_refl: "extends st st"
  by (simp add: extends_def)

lemma extends_trans: "extends a b \<Longrightarrow> extends b c \<Longrightarrow> extends a c"
  by (auto simp: extends_def)

lemma star_m_extends:
  assumes f: "\<And>st st'. st' \<in> set (f st) \<Longrightarrow> extends st st'"
  shows "st' \<in> set (star_m f n st) \<Longrightarrow> extends st st'"
proof (induction n arbitrary: st)
  case 0
  then show ?case by (simp add: extends_refl)
next
  case (Suc n)
  from Suc.prems consider "st' = st"
    | m where "m \<in> set (f st)" "st' \<in> set (star_m f n m)" by auto
  then show ?case
  proof cases
    case 1
    then show ?thesis by (simp add: extends_refl)
  next
    case 2
    from f [OF 2(1)] Suc.IH [OF 2(2)] show ?thesis by (rule extends_trans)
  qed
qed

lemma rep_m_extends:
  assumes f: "\<And>st st'. st' \<in> set (f st) \<Longrightarrow> extends st st'"
  shows "st' \<in> set (rep_m f lo hi st) \<Longrightarrow> extends st st'"
proof (induction hi arbitrary: st lo)
  case 0
  then show ?case by (auto simp: extends_refl split: if_splits)
next
  case (Suc hi)
  from Suc.prems consider "st' = st"
    | m where "m \<in> set (f st)" "st' \<in> set (rep_m f (lo - 1) hi m)"
    by (auto split: if_splits)
  then show ?case
  proof cases
    case 1
    then show ?thesis by (simp add: extends_refl)
  next
    case 2
    from f [OF 2(1)] Suc.IH [OF 2(2)] show ?thesis by (rule extends_trans)
  qed
qed

lemma matches_extends: "st' \<in> set (matches ic r st) \<Longrightarrow> extends st st'"
proof (induction r arbitrary: st st')
  case (Chr c)
  then show ?case
    by (cases st) (auto simp: extends_def split: list.splits if_splits)
next
  case (Cls P)
  then show ?case
    by (cases st) (auto simp: extends_def split: list.splits if_splits)
next
  case Eps
  then show ?case by (simp add: extends_refl)
next
  case (Seq r1 r2)
  from Seq.prems obtain m where "m \<in> set (matches ic r1 st)" "st' \<in> set (matches ic r2 m)"
    by auto
  from Seq.IH(1) [OF this(1)] Seq.IH(2) [OF this(2)] show ?case by (rule extends_trans)
next
  case (Alt r1 r2)
  from Alt.prems have "st' \<in> set (matches ic r1 st) \<or> st' \<in> set (matches ic r2 st)"
    by simp
  then show ?case using Alt.IH by blast
next
  case (Star r)
  then show ?case using star_m_extends [of "matches ic r"] by auto
next
  case (Rep lo hi r)
  then show ?case using rep_m_extends [of "matches ic r"] by auto
next
  case (Grp n r)
  obtain pre rest caps where st: "st = (pre, rest, caps)" by (cases st) auto
  from Grp.prems obtain pre' rest' caps' where
    "(pre', rest', caps') \<in> set (matches ic r (pre, rest, caps))"
    "st' = (pre', rest', (n, rev (take (length pre' - length pre) pre')) # caps')"
    unfolding st by auto
  with Grp.IH [of "(pre', rest', caps')" "(pre, rest, caps)"] show ?case
    unfolding st by (simp add: extends_def)
next
  case Bol
  then show ?case by (cases st) (auto simp: extends_refl split: if_splits)
next
  case Eol
  then show ?case by (cases st) (auto simp: extends_refl split: if_splits)
next
  case Wb
  then show ?case by (cases st) (auto simp: extends_refl split: if_splits)
qed

lemma matches_rest_subset:
  "st' \<in> set (matches ic r (pre, rest, caps)) \<Longrightarrow> set (fst (snd st')) \<subseteq> set rest"
  using matches_extends [of st' ic r "(pre, rest, caps)"] by (auto simp: extends_def)

lemma star_m_nonempty: "star_m f n st \<noteq> []"
  by (cases n) simp_all

subsection \<open>Characters of a replacement\<close>

text \<open>Every character of the result is one of the replacement, or a character of the
  input that no match covered.\<close>

lemma replace_all_chars:
  "\<forall>pre x xs. matches ic r (pre, x # xs, []) = [] \<longrightarrow> U x \<Longrightarrow>
   \<forall>pre rest st. st \<in> set (matches ic r (pre, rest, [])) \<longrightarrow>
                 length (fst (snd st)) < length rest \<Longrightarrow>
   c \<in> set (replace_all ic r rep pre rest) \<Longrightarrow> c \<in> set rep \<or> (c \<in> set rest \<and> U c)"
proof (induction ic r rep pre rest rule: replace_all.induct)
  case (1 ic r rep pre rest)
  note skip = "1.prems"(1) and prog = "1.prems"(2)
  note unf = "1.prems"(3) [unfolded replace_all.simps [of ic r rep pre rest]]
  show ?case
  proof (cases "matches ic r (pre, rest, [])")
    case no_match: Nil
    show ?thesis
    proof (cases rest)
      case Nil
      with no_match unf show ?thesis by simp
    next
      case (Cons x xs)
      from unf no_match Cons
      have "c = x \<or> c \<in> set (replace_all ic r rep (x # pre) xs)" by simp
      then show ?thesis
      proof
        assume cx: "c = x"
        from no_match Cons have "matches ic r (pre, x # xs, []) = []" by simp
        with skip have "U x" by blast
        with cx Cons show ?thesis by simp
      next
        assume "c \<in> set (replace_all ic r rep (x # pre) xs)"
        from "1.IH"(1) [OF no_match Cons skip prog this] Cons show ?thesis by auto
      qed
    qed
  next
    case (Cons st sts)
    then have mem: "st \<in> set (matches ic r (pre, rest, []))" by simp
    have sub: "set (fst (snd st)) \<subseteq> set rest"
      using matches_rest_subset [OF mem] .
    have lt: "length (fst (snd st)) < length rest"
      using prog mem by blast
    from unf Cons lt
    have "c \<in> set rep \<or> c \<in> set (replace_all ic r rep (fst st) (fst (snd st)))"
      by auto
    then show ?thesis
    proof
      assume "c \<in> set rep"
      then show ?thesis by simp
    next
      assume "c \<in> set (replace_all ic r rep (fst st) (fst (snd st)))"
      from "1.IH"(2) [OF Cons lt skip prog this] sub show ?thesis by auto
    qed
  qed
qed

lemma cls_progress:
  "st \<in> set (matches ic (Cls P) (pre, rest, caps)) \<Longrightarrow> length (fst (snd st)) < length rest"
  by (auto split: list.splits if_splits)

lemma plus_cls_progress:
  assumes "st \<in> set (matches ic (Plus (Cls P)) (pre, rest, caps))"
  shows "length (fst (snd st)) < length rest"
proof -
  from assms obtain m where m: "m \<in> set (matches ic (Cls P) (pre, rest, caps))"
    "st \<in> set (matches ic (Star (Cls P)) m)" by auto
  from matches_extends [OF m(2)] cls_progress [OF m(1)] show ?thesis
    by (auto simp: extends_def)
qed

lemma plus_cls_matches:
  "P x \<Longrightarrow> matches ic (Plus (Cls P)) (pre, x # xs, caps) \<noteq> []"
  by (simp add: star_m_nonempty)

lemma strip_chars:
  assumes "c \<in> set (replace False strip_re '' '' s)"
  shows "key_char c"
proof -
  have skip: "\<forall>pre x xs. matches False strip_re (pre, x # xs, []) = [] \<longrightarrow> key_char x"
    by (simp add: strip_re_def split: if_splits)
  have prog: "\<forall>pre rest st. st \<in> set (matches False strip_re (pre, rest, [])) \<longrightarrow>
      length (fst (snd st)) < length rest"
    unfolding strip_re_def using cls_progress by blast
  from replace_all_chars [OF skip prog assms [unfolded replace_def]]
  show ?thesis by (auto simp: key_char_def is_space_def code_def)
qed

lemma collapse_chars:
  assumes "c \<in> set (replace False ws_plus '' '' s)"
  shows "c = CHR '' '' \<or> (c \<in> set s \<and> \<not> is_space c)"
proof -
  have skip: "\<forall>pre x xs. matches False ws_plus (pre, x # xs, []) = [] \<longrightarrow> \<not> is_space x"
    unfolding ws_plus_def using plus_cls_matches [of is_space] by blast
  have prog: "\<forall>pre rest st. st \<in> set (matches False ws_plus (pre, rest, [])) \<longrightarrow>
      length (fst (snd st)) < length rest"
    unfolding ws_plus_def using plus_cls_progress by blast
  from replace_all_chars [OF skip prog assms [unfolded replace_def]]
  show ?thesis by simp
qed

lemma trim_subset: "set (trim s) \<subseteq> set s"
proof -
  have "set (dropWhile is_space (rev (dropWhile is_space s))) \<subseteq> set (rev (dropWhile is_space s))"
    by (meson set_dropWhileD subsetI)
  also have "\<dots> \<subseteq> set s" using set_dropWhileD by fastforce
  finally show ?thesis by (simp add: trim_def)
qed

lemma slice_last_subset: "set (slice_last n s) \<subseteq> set s"
  by (simp add: slice_last_def set_drop_subset)

lemma slice_last_length: "length (slice_last n s) \<le> n"
  unfolding slice_last_def by simp

lemma makeContextKey_alphabet:
  "(\<forall>c \<in> set (makeContextKey text pos). plain_key_char c) \<and>
   CHR ''$'' \<notin> set (makeContextKey text pos) \<and>
   length (makeContextKey text pos) \<le> 70"
proof -
  have chars: "plain_key_char c" if "c \<in> set (makeContextKey text pos)" for c
  proof -
    from that obtain w where
      "c \<in> set (slice_last 70 (trim (replace False ws_plus '' '' (replace False strip_re '' '' w))))"
      by (auto simp: makeContextKey_def Let_def)
    with slice_last_subset trim_subset
    have "c \<in> set (replace False ws_plus '' '' (replace False strip_re '' '' w))" by blast
    from collapse_chars [OF this] strip_chars [of c w]
    show ?thesis by (auto simp: plain_key_char_def key_char_def)
  qed
  have "\<not> plain_key_char CHR ''$''"
    by (simp add: plain_key_char_def is_lower_def is_digit_def code_def)
  with chars have "CHR ''$'' \<notin> set (makeContextKey text pos)" by blast
  moreover have "length (makeContextKey text pos) \<le> 70"
    by (simp add: makeContextKey_def Let_def slice_last_length)
  ultimately show ?thesis using chars by blast
qed

subsection \<open>The first match of a greedy run\<close>

lemma star_cls_hd:
  "list_all P xs \<Longrightarrow> (rest = [] \<or> \<not> P (hd rest)) \<Longrightarrow> length xs + length rest \<le> n \<Longrightarrow>
   hd (star_m (matches ic (Cls P)) n (pre, xs @ rest, caps)) = (rev xs @ pre, rest, caps)"
proof (induction xs arbitrary: pre n)
  case Nil
  then show ?case by (cases n; cases rest) simp_all
next
  case (Cons x xs)
  from Cons.prems(3) obtain n' where n: "n = Suc n'" "length xs + length rest \<le> n'"
    by (cases n) auto
  from Cons.prems(1) have px: "P x" and pxs: "list_all P xs" by simp_all
  have "star_m (matches ic (Cls P)) n (pre, (x # xs) @ rest, caps) =
          star_m (matches ic (Cls P)) n' (x # pre, xs @ rest, caps) @ [(pre, (x # xs) @ rest, caps)]"
    using px by (simp add: n remaining_def)
  then have "hd (star_m (matches ic (Cls P)) n (pre, (x # xs) @ rest, caps)) =
          hd (star_m (matches ic (Cls P)) n' (x # pre, xs @ rest, caps))"
    by (simp add: star_m_nonempty)
  with Cons.IH [OF pxs Cons.prems(2) n(2), of "x # pre"] show ?case by simp
qed

lemma star_cls_first:
  assumes "list_all P xs" "rest = [] \<or> \<not> P (hd rest)"
  shows "\<exists>others. matches ic (Star (Cls P)) (pre, xs @ rest, caps) =
           (rev xs @ pre, rest, caps) # others"
proof -
  let ?l = "matches ic (Star (Cls P)) (pre, xs @ rest, caps)"
  have ne: "?l \<noteq> []" by (simp add: star_m_nonempty)
  have "hd ?l = (rev xs @ pre, rest, caps)"
    using star_cls_hd [OF assms, of "length xs + length rest" ic pre caps]
    by (simp add: remaining_def)
  with ne show ?thesis by (cases ?l) auto
qed

lemma plus_cls_first:
  assumes "list_all P xs" "xs \<noteq> []" "rest = [] \<or> \<not> P (hd rest)"
  shows "\<exists>others. matches ic (Plus (Cls P)) (pre, xs @ rest, caps) =
           (rev xs @ pre, rest, caps) # others"
proof -
  from assms(2) obtain x xs' where xs: "xs = x # xs'" by (cases xs) auto
  with assms(1) have px: "P x" and pxs: "list_all P xs'" by simp_all
  from star_cls_first [OF pxs assms(3), of ic "x # pre" caps] obtain others where
    "matches ic (Star (Cls P)) (x # pre, xs' @ rest, caps) = (rev xs' @ x # pre, rest, caps) # others"
    by blast
  then show ?thesis using px by (simp add: xs)
qed

subsection \<open>Magnitude suffixes\<close>

lemma upper_char_simps:
  "upper_char CHR ''$'' = CHR ''$''" "upper_char CHR ''K'' = CHR ''K''"
  "upper_char CHR ''M'' = CHR ''M''" "upper_char CHR ''a'' = CHR ''A''"
  "upper_char CHR ''d'' = CHR ''D''" "upper_char CHR ''h'' = CHR ''H''"
  "upper_char CHR ''i'' = CHR ''I''" "upper_char CHR ''k'' = CHR ''K''"
  "upper_char CHR ''l'' = CHR ''L''" "upper_char CHR ''m'' = CHR ''M''"
  "upper_char CHR ''n'' = CHR ''N''" "upper_char CHR ''o'' = CHR ''O''"
  "upper_char CHR ''s'' = CHR ''S''" "upper_char CHR ''t'' = CHR ''T''"
  "upper_char CHR ''u'' = CHR ''U''"
  by code_simp+

lemma not_space_letters:
  "\<not> is_space CHR ''k''" "\<not> is_space CHR ''K''" "\<not> is_space CHR ''t''"
  "\<not> is_space CHR ''M''" "\<not> is_space CHR ''m''"
  by (simp_all add: is_space_def code_def)

lemma lower_suffixes:
  "toLowerCase ''k'' = ''k''" "toLowerCase ''K'' = ''k''" "toLowerCase ''thousand'' = ''thousand''"
  "toLowerCase ''M'' = ''m''" "toLowerCase ''m'' = ''m''" "toLowerCase ''million'' = ''million''"
  by code_simp+

text \<open>What follows the amount in \<open>dollar_parse_re\<close>, on each of the suffixes.\<close>

lemma dollar_tail:
  assumes "(s, m) \<in> set magnitudes"
  shows "\<exists>st others.
           matches True (Seq (Star space) (Opt (Grp 2 magnitude))) (pre, s, caps) = st # others \<and>
           fst st = rev s @ pre \<and>
           map_of (snd (snd st)) 2 = (if s = [] then map_of caps 2 else Some s) \<and>
           map_of (snd (snd st)) 1 = map_of caps 1"
proof -
  from assms consider "s = []" | "s = ''k''" | "s = ''K''" | "s = ''thousand''"
    | "s = ''M''" | "s = ''m''" | "s = ''million''"
    by (auto simp: magnitudes_def)
  then show ?thesis
    by cases (simp_all add: magnitude_def remaining_def not_space_letters upper_char_simps)
qed

subsection \<open>Numerals and parseDollar\<close>

lemma replace_all_comma:
  "replace_all False comma_re [] pre s = filter (\<lambda>c. c \<noteq> CHR '','') s"
proof (induction s arbitrary: pre)
  case Nil
  show ?case by (subst replace_all.simps) (simp add: comma_re_def)
next
  case (Cons c cs)
  show ?case
    by (subst replace_all.simps) (simp add: comma_re_def Cons.IH [unfolded comma_re_def])
qed

lemma takeWhile_all: "list_all P xs \<Longrightarrow> takeWhile P ys = [] \<Longrightarrow> takeWhile P (xs @ ys) = xs"
  by (induction xs) simp_all

lemma dropWhile_all: "list_all P xs \<Longrightarrow> dropWhile P (xs @ ys) = dropWhile P ys"
  by (induction xs) simp_all

lemma seq_first:
  "matches ic r1 st = m # ms \<Longrightarrow> matches ic r2 m = x # xs \<Longrightarrow>
   \<exists>others. matches ic (Seq r1 r2) st = x # others"
  by simp

lemma grp_first:
  "matches ic r (pre, rest, caps) = (pre', rest', caps') # ms \<Longrightarrow>
   \<exists>others. matches ic (Grp n r) (pre, rest, caps) =
     (pre', rest', (n, rev (take (length pre' - length pre) pre')) # caps') # others"
  by simp

lemma replace_comma: "replace False comma_re [] s = filter (\<lambda>c. c \<noteq> CHR '','') s"
  by (simp add: replace_def replace_all_comma)

lemma comma_not_digit: "\<not> is_digit CHR '',''"
  by (simp add: is_digit_def code_def)

lemma dot_not_digit: "\<not> is_digit CHR ''.''"
  by (simp add: is_digit_def code_def)

lemma numeral_digits:
  assumes "is_numeral ip fp"
  shows "filter (\<lambda>c. c \<noteq> CHR '','') ip = filter is_digit ip"
    and "filter is_digit ip \<noteq> []"
    and "list_all is_digit (filter is_digit ip)"
proof -
  from assms have a: "list_all (\<lambda>c. is_digit c \<or> c = CHR '','') ip" and e: "list_ex is_digit ip"
    by (simp_all add: is_numeral_def)
  from a show "filter (\<lambda>c. c \<noteq> CHR '','') ip = filter is_digit ip"
    by (intro filter_cong) (auto simp: list_all_iff comma_not_digit)
  from e show "filter is_digit ip \<noteq> []"
    by (auto simp: list_ex_iff filter_empty_conv)
  show "list_all is_digit (filter is_digit ip)" by (simp add: list_all_iff)
qed

lemma filter_comma_digits: "list_all is_digit fp \<Longrightarrow> filter (\<lambda>c. c \<noteq> CHR '','') fp = fp"
  by (induction fp) (auto simp: comma_not_digit)

text \<open>The numeral without its separators.\<close>

lemma numeral_without_commas:
  assumes "is_numeral ip fp"
  shows "filter (\<lambda>c. c \<noteq> CHR '','') (numeral_text ip fp) = numeral_text (filter is_digit ip) fp"
proof -
  from assms have "list_all is_digit fp" by (simp add: is_numeral_def)
  with numeral_digits(1) [OF assms] show ?thesis
    by (simp add: numeral_text_def filter_comma_digits)
qed

lemma parseFloat_numeral:
  assumes n: "is_numeral ip fp"
    and r: "rest = [] \<or> (\<not> is_digit (hd rest) \<and> hd rest \<noteq> CHR ''.'')"
  shows "parseFloat (numeral_text (filter is_digit ip) fp @ rest) =
           round_double (numeral_value ip fp)"
proof -
  let ?ds = "filter is_digit ip"
  from n have fpd: "list_all is_digit fp" by (simp add: is_numeral_def)
  have ds: "?ds \<noteq> []" "list_all is_digit ?ds"
    using numeral_digits(2,3) [OF n] by auto
  from r have tr: "takeWhile is_digit rest = []" by (cases rest) auto
  show ?thesis
  proof (cases "fp = []")
    case True
    have t: "takeWhile is_digit (?ds @ rest) = ?ds"
      using ds(2) tr by (rule takeWhile_all)
    have d: "dropWhile is_digit (?ds @ rest) = rest"
      using r by (cases rest) (simp_all add: dropWhile_all [OF ds(2)])
    from r have "(case rest of [] \<Rightarrow> [] | c # r' \<Rightarrow>
             if c = CHR ''.'' then takeWhile is_digit r' else []) = []"
      by (cases rest) auto
    with True t d ds(1) show ?thesis
      by (simp add: parseFloat_def numeral_text_def numeral_value_def Let_def)
  next
    case False
    have t: "takeWhile is_digit (?ds @ CHR ''.'' # fp @ rest) = ?ds"
      by (rule takeWhile_all [OF ds(2)]) (simp add: dot_not_digit)
    have d: "dropWhile is_digit (?ds @ CHR ''.'' # fp @ rest) = CHR ''.'' # fp @ rest"
      by (simp add: dropWhile_all [OF ds(2)] dot_not_digit)
    have f: "takeWhile is_digit (fp @ rest) = fp"
      using fpd tr by (rule takeWhile_all)
    from False t d f ds(1) show ?thesis
      by (simp add: parseFloat_def numeral_text_def numeral_value_def Let_def)
  qed
qed

lemma numeral_amount_chars:
  assumes "is_numeral ip fp"
  shows "list_all amount_char (numeral_text ip fp)" and "numeral_text ip fp \<noteq> []"
proof -
  from assms have a: "list_all (\<lambda>c. is_digit c \<or> c = CHR '','') ip" and e: "list_ex is_digit ip"
    and f: "list_all is_digit fp" by (simp_all add: is_numeral_def)
  from a f show "list_all amount_char (numeral_text ip fp)"
    by (auto simp: numeral_text_def list_all_iff amount_char_def)
  from e show "numeral_text ip fp \<noteq> []" by (auto simp: numeral_text_def list_ex_iff)
qed

lemma suffix_not_amount:
  assumes "(s, m) \<in> set magnitudes"
  shows "s = [] \<or> \<not> amount_char (hd s)"
    and "s = [] \<or> (\<not> is_digit (hd s) \<and> hd s \<noteq> CHR ''.'')"
    and "s = [] \<or> \<not> is_space (hd s)"
  using assms by (auto simp: magnitudes_def amount_char_def is_digit_def is_space_def code_def)

lemma dollar_parse_numeral:
  assumes n: "is_numeral ip fp" and s: "(s, m) \<in> set magnitudes"
  shows "\<exists>mt. match_re True dollar_parse_re (CHR ''$'' # numeral_text ip fp @ s) = Some mt \<and>
           group mt 1 = Some (numeral_text ip fp) \<and>
           group mt 2 = (if s = [] then None else Some s)"
proof -
  let ?N = "numeral_text ip fp"
  let ?tail = "Seq (Star space) (Opt (Grp 2 magnitude))"
  from plus_cls_first [OF numeral_amount_chars [OF n] suffix_not_amount(1) [OF s],
      of True "[CHR ''$'']" "[]"]
  obtain others1 where p: "matches True (Plus (Cls amount_char)) ([CHR ''$''], ?N @ s, []) =
      (rev ?N @ [CHR ''$''], s, []) # others1" by blast
  from dollar_tail [OF s, of "rev ?N @ [CHR ''$'']" "[(1, ?N)]"]
  obtain st others2 where t:
    "matches True ?tail (rev ?N @ [CHR ''$''], s, [(1, ?N)]) = st # others2"
    "map_of (snd (snd st)) 2 = (if s = [] then None else Some s)"
    "map_of (snd (snd st)) 1 = Some ?N"
    by auto
  from grp_first [OF p, of 1] obtain others3 where g:
    "matches True (Grp 1 (Plus (Cls amount_char))) ([CHR ''$''], ?N @ s, []) =
       (rev ?N @ [CHR ''$''], s, [(1, ?N)]) # others3" by auto
  from seq_first [OF g t(1)] obtain others4 where q:
    "matches True (Seq (Grp 1 (Plus (Cls amount_char))) ?tail) ([CHR ''$''], ?N @ s, []) =
       st # others4" by blast
  have c: "matches True (Chr CHR ''$'') ([], CHR ''$'' # ?N @ s, []) = [([CHR ''$''], ?N @ s, [])]"
    by (simp add: upper_char_simps)
  from seq_first [OF c q]
  have "\<exists>others. matches True dollar_parse_re ([], CHR ''$'' # ?N @ s, []) = st # others"
    by (simp only: dollar_parse_re_def Seqs.simps)
  then obtain others where
    "matches True dollar_parse_re ([], CHR ''$'' # ?N @ s, []) = st # others" by blast
  then have "match_re True dollar_parse_re (CHR ''$'' # ?N @ s) = Some (mk_match [] st)"
    by (simp add: match_re_def exec_from.simps [of True dollar_parse_re "[]"])
  moreover have "group (mk_match [] st) 1 = Some ?N" "group (mk_match [] st) 2 = (if s = [] then None else Some s)"
    using t(2,3) by (cases st; simp add: group_def mk_match_def)+
  ultimately show ?thesis by blast
qed

lemma parseDollar_numeral:
  assumes n: "is_numeral ip fp" and s: "(s, m) \<in> set magnitudes"
  shows "parseDollar (CHR ''$'' # numeral_text ip fp @ s) = Some (scaled (numeral_value ip fp) m)"
proof -
  from dollar_parse_numeral [OF n s] obtain mt where mt:
    "match_re True dollar_parse_re (CHR ''$'' # numeral_text ip fp @ s) = Some mt"
    "group mt 1 = Some (numeral_text ip fp)"
    "group mt 2 = (if s = [] then None else Some s)" by blast
  have v: "parseFloat (replace False comma_re [] (numeral_text ip fp)) =
             round_double (numeral_value ip fp)"
    using parseFloat_numeral [OF n, of "[]"]
    by (simp add: replace_comma numeral_without_commas [OF n])
  show ?thesis
  proof (cases "s = []")
    case True
    with s have "m = 1" by (auto simp: magnitudes_def)
    with True mt v show ?thesis
      by (simp add: parseDollar_def the_default_def scaled_def)
  next
    case False
    from s False consider "s = ''k''" "m = 1000" | "s = ''K''" "m = 1000"
      | "s = ''thousand''" "m = 1000" | "s = ''M''" "m = 1000000" | "s = ''m''" "m = 1000000"
      | "s = ''million''" "m = 1000000"
      by (auto simp: magnitudes_def)
    then show ?thesis
      using mt v
      by cases (simp_all add: parseDollar_def the_default_def scaled_def Let_def lower_suffixes)
  qed
qed

subsection \<open>Anchored patterns\<close>

lemma seq_mem:
  "st' \<in> set (matches ic (Seq r1 r2) st) \<longleftrightarrow>
   (\<exists>m \<in> set (matches ic r1 st). st' \<in> set (matches ic r2 m))"
  by simp

lemma eol_mem: "st' \<in> set (matches ic Eol st) \<longleftrightarrow> st' = st \<and> fst (snd st) = []"
  by (cases st) auto

lemma bol_mem: "st' \<in> set (matches ic Bol st) \<longleftrightarrow> st' = st \<and> fst st = []"
  by (cases st) auto

lemma star_self_mem: "st \<in> set (matches ic (Star r) st)"
  by (cases "remaining st") simp_all

lemma opt_self_mem: "st \<in> set (matches ic (Opt r) st)"
  by (simp add: numeral_eq_Suc)

lemma opt_take_mem: "m \<in> set (matches ic r st) \<Longrightarrow> m \<in> set (matches ic (Opt r) st)"
  by (simp add: numeral_eq_Suc)

lemma exec_from_bol:
  "pre \<noteq> [] \<Longrightarrow> exec_from ic (Seq Bol r) pre rest = None"
proof (induction rest arbitrary: pre)
  case Nil
  then show ?case by (subst exec_from.simps) simp
next
  case (Cons c cs)
  then show ?case by (subst exec_from.simps) simp
qed

lemma match_re_anchored:
  "match_re ic (Seq Bol r) s =
     (case matches ic r ([], s, []) of [] \<Rightarrow> None | st # _ \<Rightarrow> Some (mk_match [] st))"
proof -
  have m: "matches ic (Seq Bol r) ([], s, []) = matches ic r ([], s, [])" by simp
  show ?thesis
    unfolding match_re_def
    by (subst exec_from.simps) (simp add: m exec_from_bol del: matches.simps split: list.splits)
qed

lemma test_anchored: "test ic (Seq Bol r) s \<longleftrightarrow> (\<exists>st. st \<in> set (matches ic r ([], s, [])))"
proof -
  have "test ic (Seq Bol r) s \<longleftrightarrow> matches ic r ([], s, []) \<noteq> []"
    by (simp add: test_def match_re_anchored split: list.splits)
  also have "\<dots> \<longleftrightarrow> (\<exists>st. st \<in> set (matches ic r ([], s, [])))"
    by (cases "matches ic r ([], s, [])") auto
  finally show ?thesis .
qed

text \<open>What a run of a character class has consumed.\<close>

lemma star_cls_consumed:
  "st' \<in> set (star_m (matches ic (Cls P)) k (pre, rest, caps)) \<Longrightarrow>
   \<exists>ys. rest = ys @ fst (snd st') \<and> list_all P ys"
proof (induction k arbitrary: pre rest)
  case 0
  then show ?case by simp
next
  case (Suc k)
  from Suc.prems consider "st' = (pre, rest, caps)"
    | m where "m \<in> set (matches ic (Cls P) (pre, rest, caps))"
        "st' \<in> set (star_m (matches ic (Cls P)) k m)"
    by auto
  then show ?case
  proof cases
    case 1
    then show ?thesis by simp
  next
    case 2
    from 2(1) obtain x xs where x: "rest = x # xs" "P x" "m = (x # pre, xs, caps)"
      by (auto split: list.splits if_splits)
    from Suc.IH [of "x # pre" xs] 2(2) x(3) obtain ys where
      "xs = ys @ fst (snd st')" "list_all P ys" by blast
    with x(1,2) have "rest = (x # ys) @ fst (snd st')" "list_all P (x # ys)" by simp_all
    then show ?thesis by blast
  qed
qed

lemma plus_cls_consumed:
  assumes "st' \<in> set (matches ic (Plus (Cls P)) (pre, rest, caps))"
  shows "\<exists>ys. rest = ys @ fst (snd st') \<and> list_all P ys \<and> ys \<noteq> []"
proof -
  from assms obtain m where m: "m \<in> set (matches ic (Cls P) (pre, rest, caps))"
    "st' \<in> set (matches ic (Star (Cls P)) m)" by auto
  from m(1) obtain x xs where x: "rest = x # xs" "P x" "m = (x # pre, xs, caps)"
    by (auto split: list.splits if_splits)
  from m(2) x(3) star_cls_consumed [of st' ic P "length xs" "x # pre" xs caps]
  obtain ys where "xs = ys @ fst (snd st')" "list_all P ys" by (auto simp: remaining_def)
  with x(1,2) have "rest = (x # ys) @ fst (snd st')" "list_all P (x # ys)" by simp_all
  then show ?thesis by blast
qed

subsection \<open>The tests of normalizeNum\<close>

lemma int_re_iff: "test False int_re n \<longleftrightarrow> n \<noteq> [] \<and> list_all is_digit n"
proof
  assume "test False int_re n"
  then obtain st where "st \<in> set (matches False (Seq (Plus digit) Eol) ([], n, []))"
    unfolding int_re_def Seqs.simps test_anchored by blast
  then obtain m where m: "m \<in> set (matches False (Plus digit) ([], n, []))" "fst (snd m) = []"
    unfolding seq_mem [of st False "Plus digit" Eol] eol_mem by blast
  from plus_cls_consumed [OF m(1)] m(2) show "n \<noteq> [] \<and> list_all is_digit n" by auto
next
  assume a: "n \<noteq> [] \<and> list_all is_digit n"
  with plus_cls_first [of is_digit n "[]" False "[]" "[]"] obtain others where
    "matches False (Plus digit) ([], n, []) = (rev n, [], []) # others" by auto
  then have "(rev n, [], []) \<in> set (matches False (Plus digit) ([], n, []))" by simp
  then have "(rev n, [], []) \<in> set (matches False (Seq (Plus digit) Eol) ([], n, []))"
    unfolding seq_mem [of _ False "Plus digit" Eol] eol_mem by force
  then show "test False int_re n"
    unfolding int_re_def Seqs.simps test_anchored by blast
qed

lemma seq_memI:
  "m \<in> set (matches ic r1 st) \<Longrightarrow> st' \<in> set (matches ic r2 m) \<Longrightarrow>
   st' \<in> set (matches ic (Seq r1 r2) st)"
  by auto

lemma star_cls_mem:
  assumes "list_all P xs" "rest = [] \<or> \<not> P (hd rest)"
  shows "(rev xs @ pre, rest, caps) \<in> set (matches ic (Star (Cls P)) (pre, xs @ rest, caps))"
proof -
  from star_cls_first [OF assms, of ic pre caps] obtain others where
    "matches ic (Star (Cls P)) (pre, xs @ rest, caps) = (rev xs @ pre, rest, caps) # others"
    by blast
  then show ?thesis by (simp del: matches.simps)
qed

lemma plus_cls_mem:
  assumes "list_all P xs" "xs \<noteq> []" "rest = [] \<or> \<not> P (hd rest)"
  shows "(rev xs @ pre, rest, caps) \<in> set (matches ic (Plus (Cls P)) (pre, xs @ rest, caps))"
proof -
  from plus_cls_first [OF assms, of ic pre caps] obtain others where
    "matches ic (Plus (Cls P)) (pre, xs @ rest, caps) = (rev xs @ pre, rest, caps) # others"
    by blast
  then show ?thesis by (simp del: matches.simps)
qed

text \<open>\<open>/^\d*\.?\d+\s*(...)$/\<close> on a numeral without separators followed by \<open>s\<close>.\<close>

lemma suffix_re_positive:
  assumes ds: "list_all is_digit ds" "ds \<noteq> []" and fp: "list_all is_digit fp"
    and s: "s = [] \<or> \<not> is_digit (hd s)"
    and tail: "\<And>pre caps. \<exists>st. st \<in> set (matches False (Seq (Grp 1 alt) Eol) (pre, s, caps))"
  shows "test False (Seqs [Bol, Star digit, Opt (Chr CHR ''.''), Plus digit, Star space,
                           Grp 1 alt, Eol]) (numeral_text ds fp @ s)"
proof -
  let ?T = "Seq (Grp 1 alt) Eol"
  have after_digits: "\<exists>st. st \<in> set (matches False (Seq (Plus digit) (Seq (Star space) ?T))
           (pre, xs @ s, []))" if "list_all is_digit xs" "xs \<noteq> []" for pre xs
  proof -
    from plus_cls_mem [OF that s, of pre "[]" False]
    have p: "(rev xs @ pre, s, []) \<in> set (matches False (Plus digit) (pre, xs @ s, []))" .
    from tail [of "rev xs @ pre" "[]"] obtain st where
      st: "st \<in> set (matches False ?T (rev xs @ pre, s, []))" by blast
    from seq_memI [OF star_self_mem st]
    have "st \<in> set (matches False (Seq (Star space) ?T) (rev xs @ pre, s, []))" .
    from seq_memI [OF p this] show ?thesis by blast
  qed
  let ?R = "Seq (Plus digit) (Seq (Star space) ?T)"
  have "\<exists>st. st \<in> set (matches False (Seq (Star digit) (Seq (Opt (Chr CHR ''.'')) ?R))
          ([], numeral_text ds fp @ s, []))"
  proof (cases "fp = []")
    case True
    from after_digits [OF ds, of "[]"] obtain st where
      st: "st \<in> set (matches False ?R ([], ds @ s, []))" by blast
    have o: "([], ds @ s, []) \<in> set (matches False (Opt (Chr CHR ''.'')) ([], ds @ s, []))"
      by (rule opt_self_mem)
    have z: "([], ds @ s, []) \<in> set (matches False (Star digit) ([], ds @ s, []))"
      by (rule star_self_mem)
    have "st \<in> set (matches False (Seq (Star digit) (Seq (Opt (Chr CHR ''.'')) ?R))
            ([], ds @ s, []))"
      by (rule seq_memI [OF z seq_memI [OF o st]])
    moreover have "numeral_text ds fp @ s = ds @ s"
      using True by (simp add: numeral_text_def)
    ultimately show ?thesis by (simp only:) (rule exI)
  next
    case False
    have "CHR ''.'' # fp @ s = [] \<or> \<not> is_digit (hd (CHR ''.'' # fp @ s))"
      by (simp add: dot_not_digit)
    from star_cls_mem [OF ds(1) this, of "[]" "[]" False]
    have a: "(rev ds, CHR ''.'' # fp @ s, []) \<in>
               set (matches False (Star digit) ([], ds @ CHR ''.'' # fp @ s, []))" by simp
    have b: "(CHR ''.'' # rev ds, fp @ s, []) \<in>
               set (matches False (Opt (Chr CHR ''.'')) (rev ds, CHR ''.'' # fp @ s, []))"
      by (rule opt_take_mem) simp
    from after_digits [OF fp False, of "CHR ''.'' # rev ds"] obtain st where
      st: "st \<in> set (matches False ?R (CHR ''.'' # rev ds, fp @ s, []))" by blast
    have "st \<in> set (matches False (Seq (Star digit) (Seq (Opt (Chr CHR ''.'')) ?R))
            ([], ds @ CHR ''.'' # fp @ s, []))"
      by (rule seq_memI [OF a seq_memI [OF b st]])
    moreover have "numeral_text ds fp @ s = ds @ CHR ''.'' # fp @ s"
      using False by (simp add: numeral_text_def)
    ultimately show ?thesis by (simp only:) (rule exI)
  qed
  then show ?thesis
    unfolding Seqs.simps test_anchored .
qed

lemma suffix_re_negative:
  assumes t: "test False (Seqs [Bol, A, B, C, D, Grp 1 alt, Eol]) n"
    and tail: "\<And>pre rest caps st.
       st \<in> set (matches False (Seq (Grp 1 alt) Eol) (pre, rest, caps)) \<Longrightarrow> rest \<in> set sfxs"
  shows "\<exists>p x. n = p @ x \<and> x \<in> set sfxs"
proof -
  let ?T = "Seq (Grp 1 alt) Eol"
  from t obtain st where
    "st \<in> set (matches False (Seq A (Seq B (Seq C (Seq D ?T)))) ([], n, []))"
    unfolding Seqs.simps test_anchored by blast
  then obtain m1 m2 m3 m4 where m:
    "m1 \<in> set (matches False A ([], n, []))" "m2 \<in> set (matches False B m1)"
    "m3 \<in> set (matches False C m2)" "m4 \<in> set (matches False D m3)"
    "st \<in> set (matches False ?T m4)"
    unfolding seq_mem [of _ False _ "Seq _ _"] by blast
  from matches_extends [OF m(1)] matches_extends [OF m(2)] matches_extends [OF m(3)]
    matches_extends [OF m(4)]
  have "extends ([], n, []) m4" by (blast intro: extends_trans)
  then obtain p where p: "n = p @ fst (snd m4)" by (auto simp: extends_def)
  from tail [of st "fst m4" "fst (snd m4)" "snd (snd m4)"] m(5)
  have "fst (snd m4) \<in> set sfxs" by simp
  with p show ?thesis by blast
qed

lemma million_tail_neg:
  "st \<in> set (matches False (Seq (Grp 1 (Alts [Str ''million'', Chr CHR ''M'', Chr CHR ''m''])) Eol)
       (pre, rest, caps)) \<Longrightarrow> rest \<in> set [''million'', ''M'', ''m'']"
  by (auto split: list.splits if_splits)

lemma thousand_tail_neg:
  "st \<in> set (matches False (Seq (Grp 1 (Alts [Str ''thousand'', Chr CHR ''k'', Chr CHR ''K''])) Eol)
       (pre, rest, caps)) \<Longrightarrow> rest \<in> set [''thousand'', ''k'', ''K'']"
  by (auto split: list.splits if_splits)

lemma million_tail_pos:
  "s \<in> set [''million'', ''M'', ''m''] \<Longrightarrow>
   \<exists>st. st \<in> set (matches False
           (Seq (Grp 1 (Alts [Str ''million'', Chr CHR ''M'', Chr CHR ''m''])) Eol) (pre, s, caps))"
  by auto

lemma thousand_tail_pos:
  "s \<in> set [''thousand'', ''k'', ''K''] \<Longrightarrow>
   \<exists>st. st \<in> set (matches False
           (Seq (Grp 1 (Alts [Str ''thousand'', Chr CHR ''k'', Chr CHR ''K''])) Eol) (pre, s, caps))"
  by auto

subsection \<open>What one step of a replacement does\<close>

lemma replace_all_Nil: "matches ic r (pre, [], []) = [] \<Longrightarrow> replace_all ic r rep pre [] = []"
  by (subst replace_all.simps) simp

lemma replace_all_skip:
  "matches ic r (pre, c # cs, []) = [] \<Longrightarrow>
   replace_all ic r rep pre (c # cs) = c # replace_all ic r rep (c # pre) cs"
  by (subst replace_all.simps) simp

lemma replace_all_match:
  "matches ic r (pre, rest, []) = st # sts \<Longrightarrow> length (fst (snd st)) < length rest \<Longrightarrow>
   replace_all ic r rep pre rest = rep @ replace_all ic r rep (fst st) (fst (snd st))"
  by (subst replace_all.simps) simp

text \<open>The first character of the result is the first of the text or of the replacement.\<close>

lemma replace_all_hd:
  assumes prog: "\<forall>pre rest st. st \<in> set (matches ic r (pre, rest, [])) \<longrightarrow>
                   length (fst (snd st)) < length rest"
    and "rep \<noteq> []"
  shows "replace_all ic r rep pre (c # cs) \<noteq> [] \<and>
         (hd (replace_all ic r rep pre (c # cs)) = c \<or>
          hd (replace_all ic r rep pre (c # cs)) = hd rep)"
proof (cases "matches ic r (pre, c # cs, [])")
  case Nil
  then show ?thesis by (simp add: replace_all_skip del: matches.simps)
next
  case (Cons st sts)
  then have "st \<in> set (matches ic r (pre, c # cs, []))" by (simp del: matches.simps)
  with prog have "length (fst (snd st)) < length (c # cs)" by blast
  from replace_all_match [OF Cons this] assms(2) show ?thesis by simp
qed

subsection \<open>No dollar amount is left\<close>

lemma has_dollar_amount_Cons:
  "has_dollar_amount (c # s) \<longleftrightarrow>
     (c = CHR ''$'' \<and> s \<noteq> [] \<and> amount_char (hd s)) \<or> has_dollar_amount s"
  by (cases s) auto

lemma has_dollar_amount_suffix: "\<not> has_dollar_amount (xs @ ys) \<Longrightarrow> \<not> has_dollar_amount ys"
  by (induction xs) (auto simp: has_dollar_amount_Cons)

lemma not_amount_chars: "\<not> amount_char CHR ''$''" "\<not> amount_char CHR ''#''"
  by (simp_all add: amount_char_def is_digit_def code_def)

lemma mask_dollar_progress:
  "\<forall>pre rest st. st \<in> set (matches True mask_dollar_re (pre, rest, [])) \<longrightarrow>
     length (fst (snd st)) < length rest"
proof (intro allI impI)
  fix pre rest st
  assume "st \<in> set (matches True mask_dollar_re (pre, rest, []))"
  then obtain m where m: "m \<in> set (matches True (Chr CHR ''$'') (pre, rest, []))"
    "st \<in> set (matches True (Seq (Plus (Cls amount_char)) (Opt (Seq (Star space) magnitude))) m)"
    unfolding mask_dollar_re_def Seqs.simps seq_mem [of _ True "Chr _"] by blast
  from m(1) have "length (fst (snd m)) < length rest"
    by (auto split: list.splits if_splits)
  with matches_extends [OF m(2)] show "length (fst (snd st)) < length rest"
    by (auto simp: extends_def)
qed

lemma mask_dollar_exists:
  assumes "amount_char d"
  shows "matches True mask_dollar_re (pre, CHR ''$'' # d # r, []) \<noteq> []"
proof -
  have a: "(CHR ''$'' # pre, d # r, []) \<in>
             set (matches True (Chr CHR ''$'') (pre, CHR ''$'' # d # r, []))" by simp
  have "(d # CHR ''$'' # pre, r, []) \<in>
          set (matches True (Cls amount_char) (CHR ''$'' # pre, d # r, []))"
    using assms by simp
  from seq_memI [OF this star_self_mem]
  have b: "(d # CHR ''$'' # pre, r, []) \<in>
             set (matches True (Plus (Cls amount_char)) (CHR ''$'' # pre, d # r, []))" .
  have c: "(d # CHR ''$'' # pre, r, []) \<in>
             set (matches True (Opt (Seq (Star space) magnitude)) (d # CHR ''$'' # pre, r, []))"
    by (rule opt_self_mem)
  have "(d # CHR ''$'' # pre, r, []) \<in>
          set (matches True mask_dollar_re (pre, CHR ''$'' # d # r, []))"
    unfolding mask_dollar_re_def Seqs.simps
    by (rule seq_memI [OF a seq_memI [OF b c]])
  then show ?thesis by (auto simp del: matches.simps)
qed

lemma mask_dollar_clean:
  "\<not> has_dollar_amount (replace_all True mask_dollar_re ''$#'' pre rest)"
proof (induction "length rest" arbitrary: pre rest rule: less_induct)
  case less
  let ?out = "replace_all True mask_dollar_re ''$#''"
  show ?case
  proof (cases "matches True mask_dollar_re (pre, rest, [])")
    case no_match: Nil
    show ?thesis
    proof (cases rest)
      case Nil
      with no_match show ?thesis by (simp add: replace_all_Nil del: matches.simps)
    next
      case (Cons c cs)
      with no_match have out: "?out pre rest = c # ?out (c # pre) cs"
        by (simp add: replace_all_skip del: matches.simps)
      have ih: "\<not> has_dollar_amount (?out (c # pre) cs)"
        using less [of cs "c # pre"] Cons by simp
      have "\<not> (c = CHR ''$'' \<and> ?out (c # pre) cs \<noteq> [] \<and> amount_char (hd (?out (c # pre) cs)))"
      proof
        assume a: "c = CHR ''$'' \<and> ?out (c # pre) cs \<noteq> [] \<and>
                   amount_char (hd (?out (c # pre) cs))"
        show False
        proof (cases cs)
          case Nil
          have "matches True mask_dollar_re (c # pre, [], []) = []"
            by (simp add: mask_dollar_re_def)
          with Nil a show False by (simp add: replace_all_Nil del: matches.simps)
        next
          case (Cons d r)
          from replace_all_hd [OF mask_dollar_progress, of "''$#''" "c # pre" d r]
          have "hd (?out (c # pre) cs) = d \<or> hd (?out (c # pre) cs) = CHR ''$''"
            using Cons by simp
          with a not_amount_chars(1) have "amount_char d" by auto
          from mask_dollar_exists [OF this, of pre r] no_match a \<open>rest = c # cs\<close> Cons
          show False by (simp del: matches.simps)
        qed
      qed
      with ih out show ?thesis by (simp add: has_dollar_amount_Cons)
    qed
  next
    case (Cons st sts)
    then have mem: "st \<in> set (matches True mask_dollar_re (pre, rest, []))"
      by (simp del: matches.simps)
    with mask_dollar_progress have lt: "length (fst (snd st)) < length rest" by blast
    from replace_all_match [OF Cons lt]
    have out: "?out pre rest = ''$#'' @ ?out (fst st) (fst (snd st))" .
    from less [OF lt] have "\<not> has_dollar_amount (?out (fst st) (fst (snd st)))" .
    with out show ?thesis
      by (simp add: has_dollar_amount_Cons not_amount_chars)
  qed
qed

lemma mask_num_progress:
  "\<forall>pre rest st. st \<in> set (matches False mask_num_re (pre, rest, [])) \<longrightarrow>
     length (fst (snd st)) < length rest"
proof (intro allI impI)
  fix pre rest st
  assume "st \<in> set (matches False mask_num_re (pre, rest, []))"
  then obtain m1 m2 where m: "m1 \<in> set (matches False Wb (pre, rest, []))"
    "m2 \<in> set (matches False digit m1)"
    "st \<in> set (matches False (Seq (Star (Cls amount_char))
             (Seq (Opt (Seq (Star space) magnitude)) Wb)) m2)"
    unfolding mask_num_re_def Seqs.simps seq_mem [of _ False Wb] seq_mem [of _ False digit]
    by blast
  from m(1) have "m1 = (pre, rest, [])" by (auto split: if_splits)
  with m(2) have "length (fst (snd m2)) < length rest"
    by (auto split: list.splits if_splits)
  with matches_extends [OF m(3)] show "length (fst (snd st)) < length rest"
    by (auto simp: extends_def)
qed

lemma mask_num_keeps_clean:
  "\<not> has_dollar_amount rest \<Longrightarrow>
   \<not> has_dollar_amount (replace_all False mask_num_re ''#'' pre rest)"
proof (induction "length rest" arbitrary: pre rest rule: less_induct)
  case less
  let ?out = "replace_all False mask_num_re ''#''"
  show ?case
  proof (cases "matches False mask_num_re (pre, rest, [])")
    case no_match: Nil
    show ?thesis
    proof (cases rest)
      case Nil
      with no_match show ?thesis by (simp add: replace_all_Nil del: matches.simps)
    next
      case (Cons c cs)
      with no_match have out: "?out pre rest = c # ?out (c # pre) cs"
        by (simp add: replace_all_skip del: matches.simps)
      from less.prems Cons have cl: "\<not> has_dollar_amount cs"
        and nx: "\<not> (c = CHR ''$'' \<and> cs \<noteq> [] \<and> amount_char (hd cs))"
        by (auto simp: has_dollar_amount_Cons)
      have ih: "\<not> has_dollar_amount (?out (c # pre) cs)"
        using less.hyps [of cs "c # pre"] Cons cl by simp
      have "\<not> (c = CHR ''$'' \<and> ?out (c # pre) cs \<noteq> [] \<and> amount_char (hd (?out (c # pre) cs)))"
      proof
        assume a: "c = CHR ''$'' \<and> ?out (c # pre) cs \<noteq> [] \<and>
                   amount_char (hd (?out (c # pre) cs))"
        show False
        proof (cases cs)
          case Nil
          have "matches False mask_num_re (c # pre, [], []) = []"
            by (simp add: mask_num_re_def)
          with Nil a show False by (simp add: replace_all_Nil del: matches.simps)
        next
          case (Cons d r)
          from replace_all_hd [OF mask_num_progress, of "''#''" "c # pre" d r]
          have "hd (?out (c # pre) cs) = d \<or> hd (?out (c # pre) cs) = CHR ''#''"
            using Cons by simp
          with a not_amount_chars(2) have "amount_char d" by auto
          with nx a Cons show False by simp
        qed
      qed
      with ih out show ?thesis by (simp add: has_dollar_amount_Cons)
    qed
  next
    case (Cons st sts)
    then have mem: "st \<in> set (matches False mask_num_re (pre, rest, []))"
      by (simp del: matches.simps)
    with mask_num_progress have lt: "length (fst (snd st)) < length rest" by blast
    from matches_extends [OF mem] obtain ys where "rest = ys @ fst (snd st)"
      by (auto simp: extends_def)
    with less.prems have "\<not> has_dollar_amount (fst (snd st))"
      using has_dollar_amount_suffix by metis
    from less.hyps [OF lt this] have "\<not> has_dollar_amount (?out (fst st) (fst (snd st)))" .
    with replace_all_match [OF Cons lt, of "''#''"] show ?thesis
      by (simp add: has_dollar_amount_Cons)
  qed
qed

lemma masked_window_no_dollar_amount: "\<not> has_dollar_amount (masked_window text pos)"
  unfolding masked_window_def replace_def
  by (rule mask_num_keeps_clean) (rule mask_dollar_clean)

subsection \<open>No standalone numeral is left\<close>

lemma digit_is_word: "is_digit c \<Longrightarrow> is_word c"
  by (simp add: is_word_def)

lemma hash_not_word: "\<not> is_word CHR ''#''" "\<not> is_digit CHR ''#''"
  by (simp_all add: is_word_def is_digit_def is_upper_def is_lower_def code_def)

lemma word_boundary_prev:
  "word_boundary pre rest \<longleftrightarrow> prev_word pre \<noteq> (case rest of [] \<Rightarrow> False | x # _ \<Rightarrow> is_word x)"
  by (simp add: word_boundary_def prev_word_def)

text \<open>A run of a class may stop anywhere.\<close>

lemma star_cls_prefix:
  "list_all P xs \<Longrightarrow> length xs + length rest \<le> n \<Longrightarrow>
   (rev xs @ pre, rest, caps) \<in> set (star_m (matches ic (Cls P)) n (pre, xs @ rest, caps))"
proof (induction xs arbitrary: pre n)
  case Nil
  then show ?case by (cases n) simp_all
next
  case (Cons x xs)
  from Cons.prems(2) obtain n' where n: "n = Suc n'" "length xs + length rest \<le> n'"
    by (cases n) auto
  from Cons.prems(1) have px: "P x" and pxs: "list_all P xs" by simp_all
  from Cons.IH [OF pxs n(2), of "x # pre"] px show ?case
    by (simp add: n remaining_def)
qed

lemma star_cls_prefix_mem:
  "list_all P xs \<Longrightarrow>
   (rev xs @ pre, rest, caps) \<in> set (matches ic (Star (Cls P)) (pre, xs @ rest, caps))"
  using star_cls_prefix [of P xs rest "length xs + length rest" pre caps ic]
  by (simp add: remaining_def)

text \<open>Where a numeral stands alone, the numeral mask matches.\<close>

lemma mask_num_exists:
  assumes pw: "\<not> prev_word pre" and ds: "list_all is_digit (d # ds)"
    and r: "r = [] \<or> \<not> is_word (hd r)"
  shows "matches False mask_num_re (pre, (d # ds) @ r, []) \<noteq> []"
proof -
  from ds have d: "is_digit d" and dsd: "list_all is_digit ds" by simp_all
  have dsa: "list_all amount_char ds"
    using dsd by (simp add: list_all_iff amount_char_def)
  let ?e = "(rev ds @ d # pre, r, [])"
  have a: "(pre, (d # ds) @ r, []) \<in> set (matches False Wb (pre, (d # ds) @ r, []))"
    using pw d by (simp add: word_boundary_prev digit_is_word)
  have b: "(d # pre, ds @ r, []) \<in> set (matches False digit (pre, (d # ds) @ r, []))"
    using d by simp
  have c: "?e \<in> set (matches False (Star (Cls amount_char)) (d # pre, ds @ r, []))"
    by (rule star_cls_prefix_mem [OF dsa])
  have o: "?e \<in> set (matches False (Opt (Seq (Star space) magnitude)) ?e)"
    by (rule opt_self_mem)
  have "prev_word (rev ds @ d # pre)"
    using d dsd by (cases "rev ds") (auto simp: prev_word_def digit_is_word list_all_iff)
  then have w: "?e \<in> set (matches False Wb ?e)"
    using r by (cases r) (simp_all add: word_boundary_prev)
  have "?e \<in> set (matches False mask_num_re (pre, (d # ds) @ r, []))"
    unfolding mask_num_re_def Seqs.simps
    by (rule seq_memI [OF a seq_memI [OF b seq_memI [OF c seq_memI [OF o w]]]])
  then show ?thesis by (auto simp del: matches.simps)
qed

text \<open>The numeral mask ends at a word boundary.\<close>

lemma mask_num_ends_at_boundary:
  assumes "st \<in> set (matches False mask_num_re (pre, rest, []))"
  shows "word_boundary (fst st) (fst (snd st))"
proof -
  from assms obtain m where "st \<in> set (matches False Wb m)"
    unfolding mask_num_re_def Seqs.simps seq_mem [of _ False _ "Seq _ _"]
      seq_mem [of _ False _ Wb] by blast
  then show ?thesis by (cases m) (auto split: if_splits)
qed

text \<open>It matches nowhere but at a digit that follows no word character.\<close>

lemma mask_num_needs_digit:
  "matches False mask_num_re (pre, rest, []) \<noteq> [] \<Longrightarrow>
   rest \<noteq> [] \<and> is_digit (hd rest) \<and> \<not> prev_word pre"
  by (cases rest)
     (auto simp: mask_num_re_def word_boundary_prev digit_is_word split: if_splits)

lemma standalone_not_digit:
  "\<not> is_digit c \<Longrightarrow> \<not> standalone_numeral_at pw (c # s)"
  by (simp add: standalone_numeral_at_def)

text \<open>Digits after a word character are copied.\<close>

lemma mask_num_copies_run:
  "prev_word pre \<Longrightarrow> list_all is_digit ds \<Longrightarrow>
   replace_all False mask_num_re ''#'' pre (ds @ r) =
     ds @ replace_all False mask_num_re ''#'' (rev ds @ pre) r"
proof (induction ds arbitrary: pre)
  case Nil
  show ?case by simp
next
  case (Cons d ds)
  from Cons.prems have "matches False mask_num_re (pre, (d # ds) @ r, []) = []"
    using mask_num_needs_digit [of pre "(d # ds) @ r"] by blast
  then have "replace_all False mask_num_re ''#'' pre ((d # ds) @ r) =
      d # replace_all False mask_num_re ''#'' (d # pre) (ds @ r)"
    by (simp add: replace_all_skip del: matches.simps)
  moreover have "prev_word (d # pre)"
    using Cons.prems(2) by (simp add: prev_word_def digit_is_word)
  ultimately show ?case using Cons.IH [of "d # pre"] Cons.prems(2) by simp
qed

text \<open>What follows a copied run begins with the next character of the text.\<close>

lemma mask_num_after_run:
  assumes "r = [] \<or> \<not> is_digit (hd r)"
  shows "replace_all False mask_num_re ''#'' pre r =
           (case r of [] \<Rightarrow> [] | x # r' \<Rightarrow> x # replace_all False mask_num_re ''#'' (x # pre) r')"
proof (cases r)
  case Nil
  have "matches False mask_num_re (pre, [], []) = []"
    using mask_num_needs_digit [of pre "[]"] by blast
  with Nil show ?thesis by (simp add: replace_all_Nil del: matches.simps)
next
  case (Cons x r')
  with assms have "matches False mask_num_re (pre, x # r', []) = []"
    using mask_num_needs_digit [of pre "x # r'"] by auto
  with Cons show ?thesis by (simp add: replace_all_skip del: matches.simps)
qed

lemma mask_num_clean:
  "pw = prev_word pre \<or> rest = [] \<or> \<not> is_word (hd rest) \<Longrightarrow>
   \<not> has_standalone_numeral pw (replace_all False mask_num_re ''#'' pre rest)"
proof (induction "length rest" arbitrary: pre rest pw rule: less_induct)
  case less
  let ?out = "replace_all False mask_num_re ''#''"
  show ?case
  proof (cases "matches False mask_num_re (pre, rest, [])")
    case no_match: Nil
    show ?thesis
    proof (cases rest)
      case Nil
      with no_match show ?thesis by (simp add: replace_all_Nil del: matches.simps)
    next
      case (Cons c cs)
      with no_match have out: "?out pre rest = c # ?out (c # pre) cs"
        by (simp add: replace_all_skip del: matches.simps)
      have ih: "\<not> has_standalone_numeral (is_word c) (?out (c # pre) cs)"
        using less.hyps [of cs "is_word c" "c # pre"] Cons by (simp add: prev_word_def)
      have "\<not> standalone_numeral_at pw (c # ?out (c # pre) cs)"
      proof (cases "is_digit c")
        case False
        then show ?thesis by (rule standalone_not_digit)
      next
        case True
        with less.prems Cons have pw: "pw = prev_word pre" by (simp add: digit_is_word)
        show ?thesis
        proof (cases pw)
          case True
          then show ?thesis by (simp add: standalone_numeral_at_def)
        next
          case False
          let ?ds = "takeWhile is_digit cs" and ?r = "dropWhile is_digit cs"
          have cs: "cs = ?ds @ ?r" by simp
          have dsd: "list_all is_digit ?ds" by (simp add: list_all_iff) (meson set_takeWhileD)
          have r: "?r = [] \<or> \<not> is_digit (hd ?r)"
            by (metis hd_dropWhile)
          have pc: "prev_word (c # pre)" using True by (simp add: prev_word_def digit_is_word)
          have o: "?out (c # pre) cs = ?ds @ ?out (rev ?ds @ c # pre) ?r"
            using mask_num_copies_run [OF pc dsd, of ?r] by simp
          have nw: "\<not> (?r = [] \<or> \<not> is_word (hd ?r))"
          proof
            assume "?r = [] \<or> \<not> is_word (hd ?r)"
            from mask_num_exists [OF _ _ this, of pre c ?ds] pw False True dsd
            have "matches False mask_num_re (pre, c # cs, []) \<noteq> []" by simp
            with no_match Cons show False by simp
          qed
          then obtain x r' where x: "?r = x # r'" "is_word x" by (cases ?r) auto
          with r have nd: "\<not> is_digit x" by simp
          from mask_num_after_run [OF r, of "rev ?ds @ c # pre"] x(1)
          have "?out (rev ?ds @ c # pre) ?r = x # ?out (x # rev ?ds @ c # pre) r'" by simp
          with o have "c # ?out (c # pre) cs = (c # ?ds) @ x # ?out (x # rev ?ds @ c # pre) r'"
            by simp
          moreover have "takeWhile is_digit ((c # ?ds) @ x # s) = c # ?ds"
            and "dropWhile is_digit ((c # ?ds) @ x # s) = x # s" for s
            using True dsd nd
            by (simp_all add: takeWhile_all dropWhile_all del: append_Cons)
          ultimately show ?thesis
            using x(2) by (simp add: standalone_numeral_at_def del: append_Cons)
        qed
      qed
      with ih out show ?thesis by simp
    qed
  next
    case (Cons st sts)
    then have mem: "st \<in> set (matches False mask_num_re (pre, rest, []))"
      by (simp del: matches.simps)
    with mask_num_progress have lt: "length (fst (snd st)) < length rest" by blast
    from mask_num_ends_at_boundary [OF mem]
    have "False = prev_word (fst st) \<or> fst (snd st) = [] \<or> \<not> is_word (hd (fst (snd st)))"
      by (cases "fst (snd st)") (auto simp: word_boundary_prev)
    from less.hyps [OF lt this]
    have "\<not> has_standalone_numeral False (?out (fst st) (fst (snd st)))" .
    with replace_all_match [OF Cons lt, of "''#''"] show ?thesis
      by (simp add: standalone_numeral_at_def hash_not_word)
  qed
qed

lemma masked_window_no_standalone_numeral:
  "\<not> has_standalone_numeral False (masked_window text pos)"
  unfolding masked_window_def replace_def
  by (rule mask_num_clean) (simp add: prev_word_def)

lemma makeContextKey_finish:
  "makeContextKey text pos = finish_key (masked_window text pos)"
  by (simp add: makeContextKey_def finish_key_def masked_window_def context_window_def Let_def)

text \<open>
  Claim C2, amended. Before the key is returned, every currency-amount-shaped substring
  and every standalone numeral of the window has been replaced by the placeholder: the
  window after the two masks holds no \<open>$\<close> followed by a digit, comma or period, and no
  run of digits that stands between characters other than letters, digits and
  underscores. The key is made from that window; it consists of lower-case letters,
  digits, \<open>#\<close> and spaces, has no \<open>$\<close> and so no literal dollar amount, and at most 70
  characters. Digits inside a word that has a letter or an underscore are not masked.
\<close>

theorem makeContextKey_masks:
  "makeContextKey text pos = finish_key (masked_window text pos) \<and>
   \<not> has_dollar_amount (masked_window text pos) \<and>
   \<not> has_standalone_numeral False (masked_window text pos) \<and>
   (\<forall>c \<in> set (makeContextKey text pos). plain_key_char c) \<and>
   CHR ''$'' \<notin> set (makeContextKey text pos) \<and>
   length (makeContextKey text pos) \<le> 70"
  using makeContextKey_finish [of "text" pos] masked_window_no_dollar_amount [of "text" pos]
    masked_window_no_standalone_numeral [of "text" pos] makeContextKey_alphabet [of "text" pos]
  by blast

subsection \<open>Sample documents\<close>

lemma extractFacts_text:
  assumes "fs p = Some buf" "length buf \<le> max_file_bytes" "buf \<noteq> []" "CHR 0x00 \<notin> set buf"
  shows "extractFacts fs p =
           List.map_filter (dollar_fact buf p) (exec_all False dollarRe [] buf) @
           List.map_filter (count_fact buf p) (exec_all True countRe [] buf)"
  using assms by (simp add: extractFacts_def utf8_text_def Let_def)

lemma version_note_key: "makeContextKey version_note 17 = ''version v2 costs # now''"
  by code_simp

text \<open>
  Claim C2 as stated, that a context key contains no raw digit sequence, fails: in
  \<open>Version v2 costs $500 now\<close> the amount is masked, but the digit of \<open>v2\<close> stays in the
  key, since it does not follow a word boundary.
\<close>

theorem context_key_digit_counterexample:
  "\<not> (\<forall>c \<in> set (makeContextKey version_note 17). \<not> is_digit c)"
proof -
  have "CHR ''2'' \<in> set (makeContextKey version_note 17)"
    unfolding version_note_key by simp
  moreover have "is_digit CHR ''2''" by (simp add: is_digit_def code_def)
  ultimately show ?thesis by blast
qed

lemma version_note_window: "masked_window version_note 17 = ''Version v2 costs $# now''"
  by code_simp

lemma version_note_before:
  "has_dollar_amount version_note \<and> has_standalone_numeral False version_note"
  by code_simp

theorem makeContextKey_masks_witness:
  "has_dollar_amount version_note \<and> has_standalone_numeral False version_note \<and>
   masked_window version_note 17 = ''Version v2 costs $# now'' \<and>
   \<not> has_dollar_amount (masked_window version_note 17) \<and>
   \<not> has_standalone_numeral False (masked_window version_note 17) \<and>
   makeContextKey version_note 17 = ''version v2 costs # now'' \<and>
   CHR ''2'' \<in> set (makeContextKey version_note 17) \<and> plain_key_char CHR ''2'' \<and>
   CHR ''$'' \<notin> set (makeContextKey version_note 17)"
proof -
  have m: "CHR ''2'' \<in> set (makeContextKey version_note 17)"
    unfolding version_note_key by simp
  from makeContextKey_masks [of version_note 17] m version_note_before version_note_window
    version_note_key
  show ?thesis by blast
qed

lemma budget_note_dollar:
  "List.map_filter (dollar_fact budget_note ''a.md'') (exec_all False dollarRe [] budget_note) =
     [\<lparr>f_type = Dollar, f_key = ''total budget was # in all'', f_value = NaN, f_unit = None,
       f_raw = ''$,'', f_file = ''a.md''\<rparr>]"
  by code_simp

lemma budget_note_count:
  "List.map_filter (count_fact budget_note ''a.md'') (exec_all True countRe [] budget_note) = []"
  by code_simp

text \<open>
  Claim C1 says that the value of every extracted fact is a finite number that is not
  negative. For the document \<open>total budget was $, in all\<close> the monetary pattern matches
  \<open>$,\<close>, \<open>parseDollar\<close> returns \<open>NaN\<close>, which is not \<open>null\<close>, and the fact is kept with the
  value \<open>NaN\<close>.
\<close>

theorem extractFacts_value_not_a_number:
  "extractFacts [''a.md'' \<mapsto> budget_note] ''a.md'' =
     [\<lparr>f_type = Dollar, f_key = ''total budget was # in all'', f_value = NaN, f_unit = None,
       f_raw = ''$,'', f_file = ''a.md''\<rparr>]"
proof -
  have "length budget_note \<le> max_file_bytes" by (simp add: budget_note_def max_file_bytes_def)
  moreover have "budget_note \<noteq> []" by (simp add: budget_note_def)
  moreover have "CHR 0x00 \<notin> set budget_note" by (simp add: budget_note_def)
  ultimately show ?thesis
    using extractFacts_text [of "[''a.md'' \<mapsto> budget_note]" "''a.md''" budget_note]
    by (simp add: budget_note_dollar budget_note_count)
qed

lemma regex_note_matches:
  "map m_text (exec_all False dollarRe [] regex_note) = [''$2'', ''$50'']"
  by code_simp

lemma regex_note_dollar:
  "List.map_filter (dollar_fact regex_note ''x.md'') (exec_all False dollarRe [] regex_note) =
     [\<lparr>f_type = Dollar, f_key = ''match # regex pay #'', f_value = Num 50,
       f_unit = None, f_raw = ''$50'', f_file = ''x.md''\<rparr>]"
  by code_simp

lemma regex_note_count:
  "List.map_filter (count_fact regex_note ''x.md'') (exec_all True countRe [] regex_note) = []"
  by code_simp

lemma regex_note_facts:
  "extractFacts [''x.md'' \<mapsto> regex_note] ''x.md'' =
     [\<lparr>f_type = Dollar, f_key = ''match # regex pay #'', f_value = Num 50,
       f_unit = None, f_raw = ''$50'', f_file = ''x.md''\<rparr>]"
proof -
  have "length regex_note \<le> max_file_bytes" by (simp add: regex_note_def max_file_bytes_def)
  moreover have "regex_note \<noteq> []" by (simp add: regex_note_def)
  moreover have "CHR 0x00 \<notin> set regex_note" by (simp add: regex_note_def)
  ultimately show ?thesis
    using extractFacts_text [of "[''x.md'' \<mapsto> regex_note]" "''x.md''" regex_note]
    by (simp add: regex_note_dollar regex_note_count)
qed

lemma regex_note_two: "parseDollar ''$2'' = Some (Num 2)"
  by code_simp

lemma regex_note_key: "makeContextKey regex_note 6 = ''match # regex pay #''"
  by code_simp

lemma regex_note_code_like: "test False code_like_re ''match # regex pay #''"
  by code_simp

theorem code_like_small_amounts_discarded_witness:
  "map m_text (exec_all False dollarRe [] regex_note) = [''$2'', ''$50''] \<and>
   parseDollar ''$2'' = Some (Num 2) \<and>
   code_like_small \<lparr>f_type = Dollar, f_key = makeContextKey regex_note 6, f_value = Num 2,
       f_unit = None, f_raw = ''$2'', f_file = ''x.md''\<rparr> \<and>
   map f_raw (extractFacts [''x.md'' \<mapsto> regex_note] ''x.md'') = [''$50''] \<and>
   \<not> code_like_small (hd (extractFacts [''x.md'' \<mapsto> regex_note] ''x.md''))"
proof -
  have a: "code_like_small \<lparr>f_type = Dollar, f_key = makeContextKey regex_note 6,
       f_value = Num 2, f_unit = None, f_raw = ''$2'', f_file = ''x.md''\<rparr>"
    by (simp add: code_like_small_def regex_note_key regex_note_code_like)
  have "hd (extractFacts [''x.md'' \<mapsto> regex_note] ''x.md'') \<in>
          set (extractFacts [''x.md'' \<mapsto> regex_note] ''x.md'')"
    by (simp add: regex_note_facts)
  with code_like_small_amounts_discarded [of "[''x.md'' \<mapsto> regex_note]" "''x.md''" "[]"]
  have "\<not> code_like_small (hd (extractFacts [''x.md'' \<mapsto> regex_note] ''x.md''))"
    by blast
  with a regex_note_matches regex_note_two show ?thesis
    by (simp add: regex_note_facts)
qed

subsection \<open>Running twice\<close>









end
